theory Spec2Isabelle
  imports Main "HOL-Library.Monad_Syntax" "HOL-Library.Signed_Division"
begin

section \<open>MinecraftLevelExporter: the two converters\<close>

text \<open>
  The repository holds two versions of \<^verbatim>\<open>converter/converter.go\<close>: the dense pipeline
  (a nested 3D array of block ids is padded to multiples of 16 and cut into 16x16x16
  sections) and the structure pipeline (a flat buffer of palette indices is resolved to
  block ids and cut into sections of 4096 cells).

  Modelling conventions.
  \<^item> A Go slice is a list. A runtime panic (index out of range, slice bounds out of
    range) is the value \<open>None\<close>; every function that can panic returns an option.
  \<^item> In the dense pipeline every integer is a length, an index below a length, or a
    padded size or section count of a volume that has been allocated; a slice element
    takes at least 8 bytes, so these values stay far below \<open>2^63\<close>, and they are
    modelled by \<open>nat\<close>. Every list has capacity equal to its length.
  \<^item> In the structure pipeline the declared sizes are arbitrary values of Go's
    \<^verbatim>\<open>int\<close>, and the arithmetic on them wraps around: it is modelled by \<open>int\<close>
    with the wrap-around of 64 bits written out (\<open>int64\<close>).
  \<^item> The structure pipeline decodes JSON numbers to \<^verbatim>\<open>float64\<close> and converts them
    with \<^verbatim>\<open>int(...)\<close>; the schema makes them integers, and they are modelled as
    \<open>int\<close> (exact below \<open>2^53\<close>).
  \<^item> A counted loop \<^verbatim>\<open>for i := 0; i < n; i++\<close> whose body updates local state
    is \<open>forUpto n body\<close>: the body is run for \<open>i = 0, ..., n - 1\<close> in
    turn on the state, and a panic in the body ends the loop with \<open>None\<close>.
\<close>

subsection \<open>Go primitives\<close>

text \<open>\<^verbatim>\<open>xs[i]\<close> as a read.\<close>

definition index :: "'a list \<Rightarrow> nat \<Rightarrow> 'a option" where
  "index xs i = (if i < length xs then Some (xs ! i) else None)"

text \<open>\<^verbatim>\<open>xs[i] = v\<close>.\<close>

definition assign :: "'a list \<Rightarrow> nat \<Rightarrow> 'a \<Rightarrow> 'a list option" where
  "assign xs i v = (if i < length xs then Some (xs[i := v]) else None)"

text \<open>\<^verbatim>\<open>xs[lo:hi]\<close>.\<close>

definition slice :: "'a list \<Rightarrow> nat \<Rightarrow> nat \<Rightarrow> 'a list option" where
  "slice xs lo hi = (if lo \<le> hi \<and> hi \<le> length xs then Some (take (hi - lo) (drop lo xs)) else None)"

text \<open>
  The builtin \<^verbatim>\<open>copy(dst, src)\<close>: the first \<open>min (len dst) (len src)\<close> cells of
  \<open>dst\<close> are overwritten; the result is the new content of \<open>dst\<close>.
\<close>

definition copy_go :: "'a list \<Rightarrow> 'a list \<Rightarrow> 'a list" where
  "copy_go dst src = take (length dst) src @ drop (length src) dst"

fun foldM :: "('a \<Rightarrow> 's \<Rightarrow> 's option) \<Rightarrow> 'a list \<Rightarrow> 's \<Rightarrow> 's option" where
  "foldM body [] s = Some s"
| "foldM body (x # xs) s = (case body x s of None \<Rightarrow> None | Some s' \<Rightarrow> foldM body xs s')"

definition forUpto :: "nat \<Rightarrow> (nat \<Rightarrow> 's \<Rightarrow> 's option) \<Rightarrow> 's \<Rightarrow> 's option" where
  "forUpto n body s = foldM body [0..<n] s"

subsection \<open>Dense pipeline\<close>

type_synonym volume = "int list list list"

record 'b Section =
  X :: int
  Y :: int
  Z :: int
  Blocks :: 'b

text \<open>
  The first loop of \<^verbatim>\<open>validateArray\<close>, and the inner loop of its second one:
  \<^verbatim>\<open>for i := 0; i < len(a)-1; i++ { if len(a[i]) != len(a[i+1]) { return false } }\<close>.
  The value is \<open>False\<close> when the loop returns false and \<open>True\<close> when it runs to its
  end. Both reads are in range under the loop's guard.
\<close>

function adjacentLens :: "'a list list \<Rightarrow> nat \<Rightarrow> bool" where
  "adjacentLens a i =
     (if int i < int (length a) - 1
      then (if length (a ! i) \<noteq> length (a ! (i + 1)) then False else adjacentLens a (i + 1))
      else True)"
  by pat_completeness auto
termination
  by (relation "measure (\<lambda>(a, i). length a - i)") auto

declare adjacentLens.simps [simp del]

text \<open>The second loop of \<^verbatim>\<open>validateArray\<close>: \<^verbatim>\<open>for _, yArray := range inputArray\<close>.\<close>

fun validateRows :: "'a list list list \<Rightarrow> bool" where
  "validateRows [] = True"
| "validateRows (yArray # rest) = (if \<not> adjacentLens yArray 0 then False else validateRows rest)"

definition validateArray :: "volume \<Rightarrow> bool" where
  "validateArray inputArray =
     (if \<not> adjacentLens inputArray 0 then False else validateRows inputArray)"

text \<open>
  \<^verbatim>\<open>padArray\<close>. The three sizes are read first; \<^verbatim>\<open>inputArray[0]\<close> and
  \<^verbatim>\<open>inputArray[0][0]\<close> panic on an empty slice. The padded array is allocated
  filled with the padding value, then the two copy loops run over it.
\<close>

definition padCopy :: "volume \<Rightarrow> nat \<Rightarrow> nat \<Rightarrow> volume \<Rightarrow> volume option" where
  "padCopy inputArray i j paddedArray = do {
     dstPlane \<leftarrow> index paddedArray i;
     dst \<leftarrow> index dstPlane j;
     srcPlane \<leftarrow> index inputArray i;
     src \<leftarrow> index srcPlane j;
     dstPlane' \<leftarrow> assign dstPlane j (copy_go dst src);
     assign paddedArray i dstPlane'
   }"

definition padArray :: "volume \<Rightarrow> int \<Rightarrow> volume option" where
  "padArray inputArray paddingValue = do {
     let xSize = (length inputArray + 15) div 16 * 16;
     plane0 \<leftarrow> index inputArray 0;
     let ySize = (length plane0 + 15) div 16 * 16;
     row0 \<leftarrow> index plane0 0;
     let zSize = (length row0 + 15) div 16 * 16;
     let paddedArray = replicate xSize (replicate ySize (replicate zSize paddingValue));
     forUpto (length inputArray) (\<lambda>i paddedArray.
        forUpto (length (inputArray ! i)) (\<lambda>j paddedArray. padCopy inputArray i j paddedArray)
          paddedArray) paddedArray
   }"

text \<open>
  The dense \<^verbatim>\<open>convertToSections\<close>. \<open>makeBlocks\<close> is the body that builds the
  16x16x16 \<^verbatim>\<open>blocks\<close> array of the section at grid position \<open>(i, j, k)\<close>; the
  three loops run in the order of the source (\<open>i\<close>, then \<open>k\<close>, then \<open>j\<close>), and each
  section is stored at index \<open>i * ySections * zSections + j * zSections + k\<close> of a
  slice allocated with zero-valued sections.
\<close>

definition makeBlocks :: "volume \<Rightarrow> nat \<Rightarrow> nat \<Rightarrow> nat \<Rightarrow> volume option" where
  "makeBlocks inputArray i j k =
     forUpto 16 (\<lambda>l blocks. do {
       blocks \<leftarrow> assign blocks l (replicate 16 []);
       forUpto 16 (\<lambda>m blocks. do {
         plane \<leftarrow> index blocks l;
         plane \<leftarrow> assign plane m (replicate 16 0);
         blocks \<leftarrow> assign blocks l plane;
         srcPlane \<leftarrow> index inputArray (i * 16 + l);
         srcRow \<leftarrow> index srcPlane (j * 16 + m);
         src \<leftarrow> slice srcRow (k * 16) ((k + 1) * 16);
         plane \<leftarrow> index blocks l;
         dst \<leftarrow> index plane m;
         plane \<leftarrow> assign plane m (copy_go dst src);
         assign blocks l plane
       }) blocks
     }) (replicate 16 [])"

definition convertToSections :: "volume \<Rightarrow> volume Section list option" where
  "convertToSections inputArray = do {
     let xSections = length inputArray div 16;
     plane0 \<leftarrow> index inputArray 0;
     let ySections = length plane0 div 16;
     row0 \<leftarrow> index plane0 0;
     let zSections = length row0 div 16;
     let sections = replicate (xSections * ySections * zSections)
                      \<lparr>X = 0, Y = 0, Z = 0, Blocks = []\<rparr>;
     forUpto xSections (\<lambda>i sections.
       forUpto zSections (\<lambda>k sections.
         forUpto ySections (\<lambda>j sections. do {
           blocks \<leftarrow> makeBlocks inputArray i j k;
           assign sections (i * ySections * zSections + j * zSections + k)
             \<lparr>X = int i * 16, Y = int j * 16, Z = int k * 16, Blocks = blocks\<rparr>
         }) sections) sections) sections
   }"

subsection \<open>Structure pipeline\<close>

text \<open>
  The decoded input of the structure pipeline: the three entries of \<^verbatim>\<open>size\<close>, the
  first sub-array of \<^verbatim>\<open>structure.block_indices\<close> and the \<^verbatim>\<open>name\<close> fields of
  \<^verbatim>\<open>structure.palette.default.block_palette\<close>, in order. The JSON numbers are
  integers by the schema and are modelled as \<open>int\<close>.
\<close>

record Size =
  sizeX :: int
  sizeY :: int
  sizeZ :: int

record inputMap =
  size3 :: Size
  block_indices :: "int list"
  block_palette :: "string list"

definition DefaultBlockId :: int where
  "DefaultBlockId = 0"

definition OutOfRangeBlockId :: int where
  "OutOfRangeBlockId = - 1"

text \<open>
  What \<^verbatim>\<open>inputJsonSchema\<close> of the structure pipeline says of the three fields:
  every size is at least 1, and \<^verbatim>\<open>block_indices[0]\<close> and the palette are not empty.
\<close>

definition inputJsonSchema :: "inputMap \<Rightarrow> bool" where
  "inputJsonSchema inp \<longleftrightarrow>
     1 \<le> sizeX (size3 inp) \<and> 1 \<le> sizeY (size3 inp) \<and> 1 \<le> sizeZ (size3 inp) \<and>
     block_indices inp \<noteq> [] \<and> block_palette inp \<noteq> []"

definition validateInput :: "inputMap \<Rightarrow> bool" where
  "validateInput inp =
     (let expectedBlockCount = sizeX (size3 inp) * sizeY (size3 inp) * sizeZ (size3 inp);
          blocks = block_indices inp;
          blockCount = int (length blocks)
      in if blockCount \<noteq> expectedBlockCount then False
         else
           let expectedBlockTypeCount =
                 fold (\<lambda>num expectedBlockTypeCount.
                         if num > expectedBlockTypeCount then num else expectedBlockTypeCount)
                   blocks 0 + 1;
               blockTypeCount = int (length (block_palette inp))
           in if blockTypeCount \<noteq> expectedBlockTypeCount then False else True)"

text \<open>\<^verbatim>\<open>xs[i]\<close> with an index of type \<^verbatim>\<open>int\<close>: a negative index panics too.\<close>

definition indexInt :: "'a list \<Rightarrow> int \<Rightarrow> 'a option" where
  "indexInt xs i = (if 0 \<le> i \<and> i < int (length xs) then Some (xs ! nat i) else None)"

text \<open>
  The palette resolution loop of the structure \<^verbatim>\<open>convertToSections\<close>:
  \<^verbatim>\<open>blocks := make([]int, len(rawBlocks))\<close>, then one assignment per raw block.
\<close>

definition resolveBlocks :: "string list \<Rightarrow> (string \<rightharpoonup> int) \<Rightarrow> int \<Rightarrow> int list \<Rightarrow> int list option" where
  "resolveBlocks blockIndiceDict blockDict defaultBlockId rawBlocks =
     forUpto (length rawBlocks) (\<lambda>i blocks. do {
       blockName \<leftarrow> indexInt blockIndiceDict (rawBlocks ! i);
       let blockId = (case blockDict blockName of Some v \<Rightarrow> v | None \<Rightarrow> defaultBlockId);
       assign blocks i blockId
     }) (replicate (length rawBlocks) 0)"

text \<open>
  A loop \<^verbatim>\<open>for x := 0; x < n; x++\<close> over a counter of type \<^verbatim>\<open>int\<close>. Go's
  integer division truncates towards zero: it is \<open>sdiv\<close>. The source's variable
  \<^verbatim>\<open>size\<close> is written \<open>sz\<close>.
\<close>

definition forInt :: "int \<Rightarrow> (int \<Rightarrow> 's \<Rightarrow> 's option) \<Rightarrow> 's \<Rightarrow> 's option" where
  "forInt n body s = foldM body [0..n - 1] s"

text \<open>
  Arithmetic on Go's \<^verbatim>\<open>int\<close> wraps around. The type has 64 bits on amd64 and arm64,
  the two architectures the repository builds for. \<open>int64 v\<close> is the value an
  \<^verbatim>\<open>int\<close> holds after an operation whose mathematical result is \<open>v\<close>: the
  representative of \<open>v\<close> modulo \<open>2^64\<close> in \<open>[-2^63, 2^63)\<close>.
\<close>

definition int64 :: "int \<Rightarrow> int" where
  "int64 v = (v + 2 ^ 63) mod 2 ^ 64 - 2 ^ 63"

text \<open>
  \<^verbatim>\<open>offset := x*16*size.X*size.Y + y*16*size.X + z*16\<close>, every product and sum of
  which is an operation on \<^verbatim>\<open>int\<close>, in Go's order of evaluation.
\<close>

definition sectionOffset :: "Size \<Rightarrow> int \<Rightarrow> int \<Rightarrow> int \<Rightarrow> int" where
  "sectionOffset sz x y z =
     int64 (int64 (int64 (int64 (int64 (x * 16) * sizeX sz) * sizeY sz) +
                   int64 (int64 (y * 16) * sizeX sz)) +
            int64 (z * 16))"

text \<open>
  The loop that fills one section. The sum \<^verbatim>\<open>i+offset\<close> wraps too: when it is
  negative the guard \<^verbatim>\<open>i+offset >= len(blocks)\<close> is false and the read
  \<^verbatim>\<open>blocks[i+offset]\<close> panics.
\<close>

definition fillSection :: "int list \<Rightarrow> int \<Rightarrow> int \<Rightarrow> int list option" where
  "fillSection blocks offset outOfRangeBlockId =
     forInt 4096 (\<lambda>i sectionBlocks.
       if int64 (i + offset) \<ge> int (length blocks)
       then assign sectionBlocks (nat i) outOfRangeBlockId
       else do {
         b \<leftarrow> indexInt blocks (int64 (i + offset));
         assign sectionBlocks (nat i) b
       }) (replicate 4096 0)"

text \<open>
  The section counts and the three loops. The loop counters stay below the section
  counts, which are below \<open>2^59\<close>, so their increments cannot wrap.
\<close>

definition makeSections :: "Size \<Rightarrow> int list \<Rightarrow> int \<Rightarrow> int list Section list option" where
  "makeSections sz blocks outOfRangeBlockId =
     (let sectionCountX = int64 (sizeX sz + 15) sdiv 16;
          sectionCountY = int64 (sizeY sz + 15) sdiv 16;
          sectionCountZ = int64 (sizeZ sz + 15) sdiv 16
      in forInt sectionCountX (\<lambda>x sections.
           forInt sectionCountY (\<lambda>y sections.
             forInt sectionCountZ (\<lambda>z sections. do {
               let offset = sectionOffset sz x y z;
               sectionBlocks \<leftarrow> fillSection blocks offset outOfRangeBlockId;
               Some (sections @ [\<lparr>X = int64 (x * 16), Y = int64 (y * 16), Z = int64 (z * 16),
                                 Blocks = sectionBlocks\<rparr>])
             }) sections) sections) [])"

definition convertToSections_structure ::
  "inputMap \<Rightarrow> (string \<rightharpoonup> int) \<Rightarrow> int \<Rightarrow> int \<Rightarrow> int list Section list option" where
  "convertToSections_structure inp blockDict defaultBlockId outOfRangeBlockId = do {
     blocks \<leftarrow> resolveBlocks (block_palette inp) blockDict defaultBlockId (block_indices inp);
     makeSections (size3 inp) blocks outOfRangeBlockId
   }"

text \<open>
  The conventional row-major flattening of a cell \<open>(x, y, z)\<close> of a volume of the given
  size, as the specification's design notes write it: \<open>index = (x*sizeY + y)*sizeZ + z\<close>.
\<close>

definition rowMajorIndex :: "Size \<Rightarrow> int \<Rightarrow> int \<Rightarrow> int \<Rightarrow> int" where
  "rowMajorIndex sz x y z = (x * sizeY sz + y) * sizeZ sz + z"

section \<open>Properties\<close>

subsection \<open>Evaluation of the loops\<close>

lemma foldM_append:
  "foldM body (xs @ ys) s = (case foldM body xs s of None \<Rightarrow> None | Some t \<Rightarrow> foldM body ys t)"
  by (induction xs arbitrary: s) (auto split: option.splits)

lemma forUpto_0: "forUpto 0 body s = Some s"
  by (simp add: forUpto_def)

lemma forUpto_Suc:
  "forUpto (Suc n) body s = (case forUpto n body s of None \<Rightarrow> None | Some t \<Rightarrow> body n t)"
  by (simp add: forUpto_def foldM_append split: option.splits)

text \<open>The loop rule: an invariant indexed by the number of iterations done.\<close>

lemma forUpto_rule:
  assumes "I 0 s"
    and "\<And>k t. k < n \<Longrightarrow> I k t \<Longrightarrow> \<exists>t'. body k t = Some t' \<and> I (Suc k) t'"
  shows "\<exists>t. forUpto n body s = Some t \<and> I n t"
  using assms(2)
proof (induction n)
  case 0
  show ?case using assms(1) by (simp add: forUpto_0)
next
  case (Suc n)
  have "\<exists>t. forUpto n body s = Some t \<and> I n t"
    by (rule Suc.IH) (simp add: Suc.prems)
  then obtain t where t: "forUpto n body s = Some t" "I n t" by blast
  from Suc.prems [of n t] t(2) obtain t' where "body n t = Some t'" "I (Suc n) t'" by auto
  with t(1) show ?case by (simp add: forUpto_Suc)
qed

subsection \<open>What the validators accept\<close>

text \<open>
  C10. The empty dense input \<open>[]\<close> is a 3-level nested array of integers (the schema of
  the dense pipeline asks no more), \<^verbatim>\<open>validateArray\<close> returns true for it, since both
  of its loops are vacuous, and \<^verbatim>\<open>padArray\<close> then panics on \<^verbatim>\<open>inputArray[0]\<close>:
  the validation of the dense pipeline does not ask for the non-zero extents that
  \<^verbatim>\<open>padArray\<close> needs.
\<close>

theorem empty_input_validated_then_padArray_panics:
  "validateArray [] \<and> index ([] :: int list list list) 0 = None \<and> padArray [] (- 1) = None"
  by (simp add: validateArray_def adjacentLens.simps padArray_def index_def)

text \<open>
  C5. The claim is that \<^verbatim>\<open>validateArray\<close> returns false whenever two leaf arrays
  anywhere in the volume differ in length. The code compares the leaves of one first-level
  row only with each other: the volume \<open>[[[1]], [[1, 2]]]\<close>, whose two leaves have lengths
  1 and 2 and lie in different first-level rows, is accepted.
\<close>

theorem validateArray_accepts_ragged_leaves:
  "validateArray [[[1]], [[1, 2]]] \<and> length ([[[1]], [[1, 2 :: int]]] ! 0 ! 0) \<noteq> length ([[[1]], [[1, 2 :: int]]] ! 1 ! 0)"
  by (simp add: validateArray_def adjacentLens.simps)

lemma fold_running_max:
  "fold (\<lambda>num acc. if num > acc then num else acc) xs (a :: int) = Max (insert a (set xs))"
proof (induction xs arbitrary: a)
  case Nil
  show ?case by simp
next
  case (Cons x xs)
  have "Max (insert (if a < x then x else a) (set xs)) = Max (insert a (insert x (set xs)))"
    by (cases "set xs = {}") (auto simp: max_def)
  with Cons.IH [of "if a < x then x else a"] show ?case by simp
qed

text \<open>
  What \<^verbatim>\<open>validateInput\<close> decides: the block count equals the product of the sizes,
  and the palette length is one more than the largest of 0 and the indices.
\<close>

lemma validateInput_iff:
  "validateInput inp \<longleftrightarrow>
     int (length (block_indices inp)) = sizeX (size3 inp) * sizeY (size3 inp) * sizeZ (size3 inp) \<and>
     int (length (block_palette inp)) = Max (insert 0 (set (block_indices inp))) + 1"
  by (simp add: validateInput_def Let_def fold_running_max)

text \<open>
  C4. The claim is that \<^verbatim>\<open>validateInput\<close> returns false whenever the palette length
  differs from \<open>max(B) + 1\<close>. The running maximum of the code starts at 0, so for the
  buffer \<open>[-1]\<close> with declared size (1,1,1) and a palette of one name the code computes
  \<open>0 + 1 = 1\<close> and returns true, while \<open>max(B) + 1 = 0\<close> differs from the palette
  length 1.
\<close>

theorem validateInput_accepts_negative_buffer:
  "validateInput \<lparr>size3 = \<lparr>sizeX = 1, sizeY = 1, sizeZ = 1\<rparr>, block_indices = [- 1],
      block_palette = [''minecraft:stone'']\<rparr> \<and>
   int (length [''minecraft:stone'']) \<noteq> Max (set [- 1 :: int]) + 1"
  by (simp add: validateInput_def)

text \<open>
  C9. There is an input of the structure pipeline that satisfies the schema and passes
  \<^verbatim>\<open>validateInput\<close>, yet holds a negative palette index, at which the palette lookup
  of \<^verbatim>\<open>convertToSections\<close> is out of bounds and the conversion panics, whatever the
  block dictionary.
\<close>

theorem validated_negative_index_panics:
  "\<exists>inp. inputJsonSchema inp \<and> validateInput inp \<and>
     (\<exists>b. b \<in> set (block_indices inp) \<and> b < 0 \<and> indexInt (block_palette inp) b = None) \<and>
     convertToSections_structure inp blockDict DefaultBlockId OutOfRangeBlockId = None"
proof -
  let ?inp = "\<lparr>size3 = \<lparr>sizeX = 1, sizeY = 1, sizeZ = 1\<rparr>, block_indices = [- 1],
      block_palette = [''minecraft:stone'']\<rparr>"
  have "inputJsonSchema ?inp"
    by (simp add: inputJsonSchema_def)
  moreover have "validateInput ?inp"
    by (simp add: validateInput_def)
  moreover have "indexInt (block_palette ?inp) (- 1) = None"
    by (simp add: indexInt_def)
  moreover have "convertToSections_structure ?inp blockDict DefaultBlockId OutOfRangeBlockId = None"
    by (simp add: convertToSections_structure_def resolveBlocks_def forUpto_def indexInt_def)
  ultimately show ?thesis
    by (intro exI [of _ ?inp]) auto
qed

subsection \<open>The base offset of the structure pipeline\<close>

text \<open>
  C6. There are a declared size and a position of the section grid at which the base
  offset of the structure pipeline differs from the row-major flattening index of the
  section's origin \<open>(16 x, 16 y, 16 z)\<close>: size (32,16,16) and grid position (1,0,0) give
  8192 against 4096.
\<close>

theorem sectionOffset_not_row_major:
  "\<exists>sz x y z.
     1 \<le> sizeX sz \<and> 1 \<le> sizeY sz \<and> 1 \<le> sizeZ sz \<and>
     0 \<le> x \<and> x < (sizeX sz + 15) sdiv 16 \<and>
     0 \<le> y \<and> y < (sizeY sz + 15) sdiv 16 \<and>
     0 \<le> z \<and> z < (sizeZ sz + 15) sdiv 16 \<and>
     sectionOffset sz x y z = 8192 \<and>
     rowMajorIndex sz (x * 16) (y * 16) (z * 16) = 4096 \<and>
     sectionOffset sz x y z \<noteq> rowMajorIndex sz (x * 16) (y * 16) (z * 16)"
  by (rule exI [of _ "\<lparr>sizeX = 32, sizeY = 16, sizeZ = 16\<rparr>"], rule exI [of _ 1],
      rule exI [of _ 0], rule exI [of _ 0])
    (simp add: sectionOffset_def int64_def rowMajorIndex_def signed_divide_int_def)

subsection \<open>Loops over an int counter, and the index of a grid cell\<close>

lemma foldM_map: "foldM body (map f xs) s = foldM (\<lambda>x. body (f x)) xs s"
  by (induction xs arbitrary: s) (auto split: option.splits)

lemma upto_0_as_map: "[0..int m - 1] = map int [0..<m]"
proof (induction m)
  case 0
  show ?case by simp
next
  case (Suc m)
  have "[0..int (Suc m) - 1] = [0..int m - 1] @ [int m]"
    using upto_rec2 [of 0 "int m"] by simp
  with Suc show ?case by simp
qed

lemma forInt_forUpto: "forInt n body s = forUpto (nat n) (\<lambda>k. body (int k)) s"
proof (cases "0 \<le> n")
  case True
  then have "[0..n - 1] = map int [0..<nat n]"
    using upto_0_as_map [of "nat n"] by simp
  then show ?thesis by (simp add: forInt_def forUpto_def foldM_map)
next
  case False
  then show ?thesis by (simp add: forInt_def forUpto_def)
qed

lemma forInt_rule:
  assumes "I 0 s"
    and "\<And>k t. k < nat n \<Longrightarrow> I k t \<Longrightarrow> \<exists>t'. body (int k) t = Some t' \<and> I (Suc k) t'"
  shows "\<exists>t. forInt n body s = Some t \<and> I (nat n) t"
  unfolding forInt_forUpto by (rule forUpto_rule [where I = I, OF assms])

lemma grid_index_inj:
  fixes x y z x' y' z' :: nat
  assumes "y < ny" "z < nz" "y' < ny" "z' < nz"
    and eq: "(x * ny + y) * nz + z = (x' * ny + y') * nz + z'"
  shows "x = x' \<and> y = y' \<and> z = z'"
proof -
  from eq have "((x * ny + y) * nz + z) mod nz = ((x' * ny + y') * nz + z') mod nz" by simp
  with assms(2,4) have z: "z = z'" by simp
  from eq have "((x * ny + y) * nz + z) div nz = ((x' * ny + y') * nz + z') div nz" by simp
  with assms(2,4) have xy: "x * ny + y = x' * ny + y'" by simp
  then have "(x * ny + y) mod ny = (x' * ny + y') mod ny" by simp
  with assms(1,3) have y: "y = y'" by simp
  from xy have "(x * ny + y) div ny = (x' * ny + y') div ny" by simp
  with assms(1,3) have "x = x'" by simp
  with y z show ?thesis by simp
qed

lemma grid_index_less:
  fixes x y z :: nat
  assumes "x < nx" "y < ny" "z < nz"
  shows "(x * ny + y) * nz + z < nx * ny * nz"
proof -
  have "x * ny + y < nx * ny"
  proof -
    have "x * ny + y < x * ny + ny" using assms(2) by simp
    also have "\<dots> = Suc x * ny" by simp
    also have "\<dots> \<le> nx * ny" using assms(1) by (intro mult_le_mono1) simp
    finally show ?thesis .
  qed
  then have "Suc (x * ny + y) \<le> nx * ny" by simp
  then have "Suc (x * ny + y) * nz \<le> nx * ny * nz" by (rule mult_le_mono1)
  moreover have "(x * ny + y) * nz + z < Suc (x * ny + y) * nz" using assms(3) by simp
  ultimately show ?thesis by linarith
qed

lemma sectionCount_pos:
  assumes "0 < (a + 15) sdiv (16 :: int)"
  shows "1 \<le> a"
proof (rule ccontr)
  assume "\<not> 1 \<le> a"
  then have "a \<le> 0" by simp
  then have "(a + 15) sdiv 16 \<le> 0"
    by (auto simp: signed_divide_int_def sgn_if)
  with assms show False by simp
qed

lemma sectionCount_div: "1 \<le> a \<Longrightarrow> (a + 15) sdiv (16 :: int) = (a + 15) div 16"
  by (simp add: signed_divide_int_def sgn_if)

subsection \<open>Palette resolution\<close>

lemma resolveBlocks_eq:
  assumes valid: "\<And>i. i < length raw \<Longrightarrow> 0 \<le> raw ! i \<and> raw ! i < int (length pal)"
  shows "resolveBlocks pal dict d raw =
           Some (map (\<lambda>b. case dict (pal ! nat b) of Some v \<Rightarrow> v | None \<Rightarrow> d) raw)"
proof -
  let ?f = "\<lambda>b. case dict (pal ! nat b) of Some v \<Rightarrow> v | None \<Rightarrow> d"
  let ?I = "\<lambda>k t. length t = length raw \<and> (\<forall>i<k. t ! i = ?f (raw ! i))"
  let ?body = "\<lambda>i blocks. do {
       blockName \<leftarrow> indexInt pal (raw ! i);
       let blockId = (case dict blockName of Some v \<Rightarrow> v | None \<Rightarrow> d);
       assign blocks i blockId
     }"
  have init: "?I 0 (replicate (length raw) 0)" by simp
  have step: "\<exists>t'. ?body k t = Some t' \<and> ?I (Suc k) t'" if k: "k < length raw" and inv: "?I k t" for k t
  proof -
    from valid [OF k] have "indexInt pal (raw ! k) = Some (pal ! nat (raw ! k))"
      by (simp add: indexInt_def)
    with k inv have "?body k t = Some (t[k := ?f (raw ! k)])"
      by (simp add: assign_def)
    moreover from inv k have "?I (Suc k) (t[k := ?f (raw ! k)])"
      by (auto simp: nth_list_update less_Suc_eq)
    ultimately show ?thesis by blast
  qed
  have "\<exists>t. forUpto (length raw) ?body (replicate (length raw) 0) = Some t \<and> ?I (length raw) t"
    by (rule forUpto_rule [where I = ?I, OF init step])
  then obtain t where t: "resolveBlocks pal dict d raw = Some t" "?I (length raw) t"
    unfolding resolveBlocks_def by blast
  from t(2) have "t = map ?f raw"
    by (intro nth_equalityI) auto
  with t(1) show ?thesis by simp
qed

text \<open>
  C7. When every index of the buffer is a position of the palette, the resolution loop
  returns a buffer of the same length whose entry at each position \<open>i\<close> is the default
  id when the palette name of index \<open>i\<close> is absent from the block dictionary, and the
  dictionary's value when it is present. The pipeline passes \<open>DefaultBlockId = 0\<close>.
\<close>

theorem palette_resolution:
  assumes "\<forall>i<length rawBlocks. 0 \<le> rawBlocks ! i \<and> rawBlocks ! i < int (length blockIndiceDict)"
  shows "\<exists>blocks. resolveBlocks blockIndiceDict blockDict defaultBlockId rawBlocks = Some blocks \<and>
           length blocks = length rawBlocks \<and>
           (\<forall>i<length rawBlocks.
              (blockDict (blockIndiceDict ! nat (rawBlocks ! i)) = None \<longrightarrow> blocks ! i = defaultBlockId) \<and>
              (\<forall>v. blockDict (blockIndiceDict ! nat (rawBlocks ! i)) = Some v \<longrightarrow> blocks ! i = v))"
  using assms by (simp add: resolveBlocks_eq)

theorem palette_resolution_witness:
  "\<exists>blocks. resolveBlocks [''minecraft:stone'', ''minecraft:dirt''] [''minecraft:stone'' \<mapsto> 1]
       DefaultBlockId [0, 1, 0] = Some blocks \<and>
     length blocks = 3 \<and> blocks ! 0 = 1 \<and> blocks ! 1 = 0 \<and> blocks ! 2 = 1"
proof -
  have valid: "\<forall>i<length [0, 1, 0 :: int]. 0 \<le> [0, 1, 0 :: int] ! i \<and>
      [0, 1, 0 :: int] ! i < int (length [''minecraft:stone'', ''minecraft:dirt''])"
    by (simp add: nth_Cons split: nat.split)
  from palette_resolution [OF valid, of "[''minecraft:stone'' \<mapsto> 1]" DefaultBlockId]
  obtain blocks where b: "resolveBlocks [''minecraft:stone'', ''minecraft:dirt''] [''minecraft:stone'' \<mapsto> 1]
       DefaultBlockId [0, 1, 0] = Some blocks" "length blocks = length [0, 1, 0 :: int]"
     and c: "\<forall>i<length [0, 1, 0 :: int].
              (([''minecraft:stone'' \<mapsto> 1] :: string \<rightharpoonup> int) ([''minecraft:stone'', ''minecraft:dirt''] ! nat ([0, 1, 0] ! i)) = None \<longrightarrow> blocks ! i = DefaultBlockId) \<and>
              (\<forall>v. ([''minecraft:stone'' \<mapsto> 1] :: string \<rightharpoonup> int) ([''minecraft:stone'', ''minecraft:dirt''] ! nat ([0, 1, 0] ! i)) = Some v \<longrightarrow> blocks ! i = v)"
    by blast
  from c [rule_format, of 0] have "blocks ! 0 = 1" by simp
  moreover from c [rule_format, of 1] have "blocks ! 1 = 0" by (simp add: DefaultBlockId_def)
  moreover from c [rule_format, of 2] have "blocks ! 2 = 1" by simp
  ultimately show ?thesis using b by simp
qed


subsection \<open>The sectionizer of the structure pipeline\<close>

lemma int64_id: "- (2 ^ 63) \<le> v \<Longrightarrow> v < 2 ^ 63 \<Longrightarrow> int64 v = v"
  by (simp add: int64_def)

lemma int64_bounds: "- (2 ^ 63) \<le> int64 v" "int64 v < 2 ^ 63"
  by (simp_all add: int64_def)

lemma int64_wrap_once:
  assumes "2 ^ 63 \<le> v" "v < 2 ^ 63 + 2 ^ 64"
  shows "int64 v = v - 2 ^ 64"
proof -
  define w where "w = v + 2 ^ 63 - 2 ^ 64"
  from assms have w: "0 \<le> w" "w < 2 ^ 64" by (simp_all add: w_def)
  have "v + 2 ^ 63 = w + 2 ^ 64" by (simp add: w_def)
  then have "(v + 2 ^ 63) mod 2 ^ 64 = (w + 2 ^ 64) mod 2 ^ 64" by (rule arg_cong)
  also have "\<dots> = w mod 2 ^ 64" by (rule mod_add_self2)
  also have "\<dots> = w" using w by (rule mod_pos_pos_trivial)
  finally show ?thesis by (simp add: int64_def w_def)
qed

lemma sdiv16_nonpos: "k \<le> 0 \<Longrightarrow> k sdiv (16 :: int) \<le> 0"
  by (auto simp: signed_divide_int_def sgn_if pos_imp_zdiv_nonneg_iff)

lemma sdiv16_pos: "0 < k \<Longrightarrow> k sdiv (16 :: int) = k div 16"
  by (simp add: signed_divide_int_def sgn_if)

lemma sectionCount64:
  assumes a: "- (2 ^ 63) \<le> a" "a < 2 ^ 63"
    and pos: "0 < int64 (a + 15) sdiv 16"
  shows "1 \<le> a" and "int64 (a + 15) sdiv 16 = (a + 15) div 16"
proof -
  have lt: "a + 15 < 2 ^ 63"
  proof (rule ccontr)
    assume "\<not> a + 15 < 2 ^ 63"
    with a have "int64 (a + 15) = a + 15 - 2 ^ 64"
      by (intro int64_wrap_once) simp_all
    with a have "int64 (a + 15) \<le> 0" by simp
    then have "int64 (a + 15) sdiv 16 \<le> 0" by (rule sdiv16_nonpos)
    with pos show False by simp
  qed
  with a have id: "int64 (a + 15) = a + 15" by (intro int64_id) simp_all
  with pos show "1 \<le> a" by (intro sectionCount_pos) simp
  then show "int64 (a + 15) sdiv 16 = (a + 15) div 16"
    by (simp add: id sectionCount_div)
qed

lemma coordinate64:
  assumes "0 \<le> x" "x < int64 v sdiv 16"
  shows "int64 (x * 16) = x * 16"
proof -
  let ?c = "int64 v"
  from assms have pos: "0 < ?c sdiv 16" by simp
  have c: "0 < ?c"
  proof (rule ccontr)
    assume "\<not> 0 < ?c"
    then have "?c \<le> 0" by simp
    then have "?c sdiv 16 \<le> 0" by (rule sdiv16_nonpos)
    with pos show False by simp
  qed
  from assms(2) have "x < ?c div 16" by (simp add: sdiv16_pos [OF c])
  then have "x * 16 < ?c" by linarith
  with int64_bounds(2) [of v] have "x * 16 < 2 ^ 63" by linarith
  with assms(1) show ?thesis by (intro int64_id) simp_all
qed

lemma sectionOffset_exact:
  assumes s: "1 \<le> sizeX sz" "1 \<le> sizeY sz"
    and g: "0 \<le> x" "0 \<le> y" "0 \<le> z"
    and r: "x * 16 * sizeX sz * sizeY sz + y * 16 * sizeX sz + z * 16 < 2 ^ 63"
  shows "sectionOffset sz x y z = x * 16 * sizeX sz * sizeY sz + y * 16 * sizeX sz + z * 16"
proof -
  define a b c where "a = x * 16" and "b = y * 16" and "c = z * 16"
  define p q t where "p = a * sizeX sz" and "q = p * sizeY sz" and "t = b * sizeX sz"
  from g have a: "0 \<le> a" and b: "0 \<le> b" and c: "0 \<le> c" by (simp_all add: a_def b_def c_def)
  have ap: "a \<le> p" unfolding p_def using mult_left_mono [OF s(1) a] by simp
  with a have p: "0 \<le> p" by simp
  have pq: "p \<le> q" unfolding q_def using mult_left_mono [OF s(2) p] by simp
  with p have q: "0 \<le> q" by simp
  have bt: "b \<le> t" unfolding t_def using mult_left_mono [OF s(1) b] by simp
  with b have t: "0 \<le> t" by simp
  from r have r': "q + t + c < 2 ^ 63"
    by (simp add: q_def p_def t_def a_def b_def c_def)
  have ia: "int64 a = a" using a ap pq t c r' by (intro int64_id) linarith+
  have ip: "int64 p = p" using p pq t c r' by (intro int64_id) linarith+
  have iq: "int64 q = q" using q t c r' by (intro int64_id) linarith+
  have ib: "int64 b = b" using b bt q c r' by (intro int64_id) linarith+
  have it: "int64 t = t" using t q c r' by (intro int64_id) linarith+
  have ic: "int64 c = c" using c q t r' by (intro int64_id) linarith+
  have iqt: "int64 (q + t) = q + t" using q t c r' by (intro int64_id) linarith+
  have iall: "int64 (q + t + c) = q + t + c" using q t c r' by (intro int64_id) linarith+
  have "sectionOffset sz x y z =
      int64 (int64 (int64 (int64 (int64 a * sizeX sz) * sizeY sz) + int64 (int64 b * sizeX sz)) + int64 c)"
    by (simp add: sectionOffset_def a_def b_def c_def)
  also have "\<dots> = q + t + c"
    unfolding ia ib ic p_def [symmetric] ip q_def [symmetric] iq t_def [symmetric] it iqt iall ..
  finally show ?thesis
    by (simp add: q_def p_def t_def a_def b_def c_def)
qed

lemma fillSection_eq:
  assumes off: "0 \<le> offset" "offset + 4095 < 2 ^ 63"
  shows "fillSection blocks offset oor =
           Some (map (\<lambda>i. if int i + offset \<ge> int (length blocks) then oor
                            else blocks ! nat (int i + offset)) [0..<4096])"
proof -
  let ?cell = "\<lambda>i. if int i + offset \<ge> int (length blocks) then oor
                            else blocks ! nat (int i + offset)"
  let ?I = "\<lambda>k t. length t = 4096 \<and> (\<forall>i<k. t ! i = ?cell i)"
  let ?body = "\<lambda>i sectionBlocks.
       if int64 (i + offset) \<ge> int (length blocks)
       then assign sectionBlocks (nat i) oor
       else do {
         b \<leftarrow> indexInt blocks (int64 (i + offset));
         assign sectionBlocks (nat i) b
       }"
  have init: "?I 0 (replicate 4096 (0::int))" by simp
  have step: "\<exists>t'. ?body (int k) t = Some t' \<and> ?I (Suc k) t'"
    if k: "k < nat 4096" and inv: "?I k t" for k t
  proof -
    from k off have "int64 (int k + offset) = int k + offset"
      by (intro int64_id) simp_all
    with k inv off have "?body (int k) t = Some (t[k := ?cell k])"
      by (simp add: assign_def indexInt_def)
    moreover from inv k have "?I (Suc k) (t[k := ?cell k])"
      by (auto simp: nth_list_update less_Suc_eq)
    ultimately show ?thesis by blast
  qed
  have "\<exists>t. forInt 4096 ?body (replicate 4096 0) = Some t \<and> ?I (nat 4096) t"
    by (rule forInt_rule [where I = ?I and body = ?body, OF init step])
  then obtain t where t: "fillSection blocks offset oor = Some t" "?I (nat 4096) t"
    unfolding fillSection_def by blast
  from t(2) have "t = map ?cell [0..<4096]"
    by (intro nth_equalityI) auto
  with t(1) show ?thesis by simp
qed

lemma forUpto_fails_at:
  assumes "k < n" "forUpto k body s = Some t" "body k t = None"
  shows "forUpto n body s = None"
  using assms(1)
proof (induction n)
  case 0
  then show ?case by simp
next
  case (Suc n)
  show ?case
  proof (cases "k = n")
    case True
    with assms(2,3) show ?thesis by (simp add: forUpto_Suc)
  next
    case False
    with Suc have "forUpto n body s = None" by simp
    then show ?thesis by (simp add: forUpto_Suc)
  qed
qed

text \<open>A wrapped, negative offset: the first read of the section panics.\<close>

lemma fillSection_negative:
  assumes "int64 offset < 0"
  shows "fillSection blocks offset oor = None"
  unfolding fillSection_def forInt_forUpto
proof (rule forUpto_fails_at [where k = 0])
  show "0 < nat 4096" by simp
  show "forUpto 0 (\<lambda>k. (\<lambda>i sectionBlocks.
       if int64 (i + offset) \<ge> int (length blocks)
       then assign sectionBlocks (nat i) oor
       else do {
         b \<leftarrow> indexInt blocks (int64 (i + offset));
         assign sectionBlocks (nat i) b
       }) (int k)) (replicate 4096 0) = Some (replicate 4096 0)"
    by (rule forUpto_0)
  from assms show "(if int64 (int 0 + offset) \<ge> int (length blocks)
       then assign (replicate 4096 0) (nat (int 0)) oor
       else do {
         b \<leftarrow> indexInt blocks (int64 (int 0 + offset));
         assign (replicate 4096 0) (nat (int 0)) b
       }) = None"
    by (simp add: indexInt_def)
qed

text \<open>
  A range of sizes in which no offset wraps: with every declared size between 1 and
  \<open>2^20\<close>, the offsets of all grid positions, plus 4095, stay below \<open>2^63\<close>.
\<close>

lemma small_sizes_do_not_wrap:
  assumes sx: "1 \<le> sizeX sz" "sizeX sz \<le> 2 ^ 20"
    and sy: "1 \<le> sizeY sz" "sizeY sz \<le> 2 ^ 20"
    and sz: "1 \<le> sizeZ sz" "sizeZ sz \<le> 2 ^ 20"
    and x: "0 \<le> x" "x < int64 (sizeX sz + 15) sdiv 16"
    and y: "0 \<le> y" "y < int64 (sizeY sz + 15) sdiv 16"
    and z: "0 \<le> z" "z < int64 (sizeZ sz + 15) sdiv 16"
  shows "x * 16 * sizeX sz * sizeY sz + y * 16 * sizeX sz + z * 16 + 4095 < 2 ^ 63"
proof -
  define a b c where "a = x * 16" and "b = y * 16" and "c = z * 16"
  define m where "m = (2 :: int) ^ 20"
  have m: "m = 1048576" by (simp add: m_def)
  have cnt: "int64 (v + 15) sdiv 16 = (v + 15) div 16" if "1 \<le> v" "v \<le> 2 ^ 20" for v :: int
  proof -
    from that have "int64 (v + 15) = v + 15" by (intro int64_id) simp_all
    with that show ?thesis by (simp add: sectionCount_div)
  qed
  from x sx have a: "0 \<le> a" "a \<le> 2 * m" by (simp_all add: cnt a_def m)
  from y sy have b: "0 \<le> b" "b \<le> 2 * m" by (simp_all add: cnt b_def m)
  from z sz have c: "0 \<le> c" "c \<le> 2 * m" by (simp_all add: cnt c_def m)
  from sx sy have s: "0 \<le> sizeX sz" "sizeX sz \<le> m" "0 \<le> sizeY sz" "sizeY sz \<le> m"
    by (simp_all add: m)
  have mpos: "0 \<le> m" by (simp add: m)
  have ax: "a * sizeX sz \<le> (2 * m) * m"
    by (rule mult_mono) (use a s mpos in simp_all)
  have axy: "a * sizeX sz * sizeY sz \<le> (2 * m) * m * m"
    by (rule mult_mono) (use ax s mpos in simp_all)
  have bx: "b * sizeX sz \<le> (2 * m) * m"
    by (rule mult_mono) (use b s mpos in simp_all)
  have "(2 * m) * m * m + (2 * m) * m + 2 * m + 4095 < (2 :: int) ^ 63"
    by (simp add: m)
  with axy bx c have "a * sizeX sz * sizeY sz + b * sizeX sz + c + 4095 < 2 ^ 63"
    by linarith
  then show ?thesis by (simp add: a_def b_def c_def)
qed

text \<open>
  The first \<open>k\<close> iterations of the outer loop of the sectionizer, when the sizes are
  values of \<^verbatim>\<open>int\<close> and no offset of these iterations, plus 4095, exceeds the
  largest \<^verbatim>\<open>int\<close>: they return the sections of the grid cells with \<open>x < k\<close>, in
  row-major order.
\<close>

lemma makeSections_prefix:
  fixes sz :: Size and blocks :: "int list" and oor :: int
  defines "nx \<equiv> nat (int64 (sizeX sz + 15) sdiv 16)"
    and "ny \<equiv> nat (int64 (sizeY sz + 15) sdiv 16)"
    and "nz \<equiv> nat (int64 (sizeZ sz + 15) sdiv 16)"
  defines "off \<equiv> \<lambda>x y z. int x * 16 * sizeX sz * sizeY sz + int y * 16 * sizeX sz + int z * 16"
  defines "sec \<equiv> \<lambda>x y z. \<lparr>X = int x * 16, Y = int y * 16, Z = int z * 16,
      Blocks = map (\<lambda>i. if int i + off x y z \<ge> int (length blocks) then oor
                          else blocks ! nat (int i + off x y z)) [0..<4096]\<rparr>"
  defines "bodyX \<equiv> \<lambda>x sections.
           forInt (int64 (sizeY sz + 15) sdiv 16) (\<lambda>y sections.
             forInt (int64 (sizeZ sz + 15) sdiv 16) (\<lambda>z sections. do {
               let offset = sectionOffset sz x y z;
               sectionBlocks \<leftarrow> fillSection blocks offset oor;
               Some (sections @ [\<lparr>X = int64 (x * 16), Y = int64 (y * 16), Z = int64 (z * 16),
                                 Blocks = sectionBlocks\<rparr>])
             }) sections) sections"
  assumes T: "- (2 ^ 63) \<le> sizeX sz" "sizeX sz < 2 ^ 63" "- (2 ^ 63) \<le> sizeY sz" "sizeY sz < 2 ^ 63"
      "- (2 ^ 63) \<le> sizeZ sz" "sizeZ sz < 2 ^ 63"
    and k: "k \<le> nx"
    and R: "\<And>x y z. x < k \<Longrightarrow> y < ny \<Longrightarrow> z < nz \<Longrightarrow> off x y z + 4095 < 2 ^ 63"
  shows "\<exists>t. forUpto k (\<lambda>x. bodyX (int x)) [] = Some t \<and> length t = k * ny * nz \<and>
           (\<forall>x y z. x < k \<and> y < ny \<and> z < nz \<longrightarrow> t ! ((x * ny + y) * nz + z) = sec x y z)"
proof -
  define Inv where "Inv c t \<longleftrightarrow> length t = c \<and>
      (\<forall>x y z. y < ny \<and> z < nz \<and> (x * ny + y) * nz + z < c \<longrightarrow> t ! ((x * ny + y) * nz + z) = sec x y z)"
    for c and t :: "int list Section list"
  let ?bodyZ = "\<lambda>x y z sections. do {
               let offset = sectionOffset sz x y z;
               sectionBlocks \<leftarrow> fillSection blocks offset oor;
               Some (sections @ [\<lparr>X = int64 (x * 16), Y = int64 (y * 16), Z = int64 (z * 16),
                                 Blocks = sectionBlocks\<rparr>])
             }"
  let ?bodyY = "\<lambda>x y sections. forInt (int64 (sizeZ sz + 15) sdiv 16) (?bodyZ x y) sections"
  have stepZ: "\<exists>t'. ?bodyZ (int x) (int y) (int z) t = Some t' \<and> Inv (Suc ((x * ny + y) * nz + z)) t'"
    if g: "x < k" "y < ny" "z < nz" and inv: "Inv ((x * ny + y) * nz + z) t" for x y z t
  proof -
    from g k have cnt: "int x < int64 (sizeX sz + 15) sdiv 16" "int y < int64 (sizeY sz + 15) sdiv 16"
      "int z < int64 (sizeZ sz + 15) sdiv 16"
      by (simp_all add: nx_def ny_def nz_def)
    then have pos: "0 < int64 (sizeX sz + 15) sdiv 16" "0 < int64 (sizeY sz + 15) sdiv 16" by linarith+
    have s: "1 \<le> sizeX sz" "1 \<le> sizeY sz"
      using sectionCount64(1) [OF T(1,2) pos(1)] sectionCount64(1) [OF T(3,4) pos(2)] by simp_all
    have co: "int64 (int x * 16) = int x * 16" "int64 (int y * 16) = int y * 16"
      "int64 (int z * 16) = int z * 16"
      using cnt by (simp_all add: coordinate64)
    from R [OF g] have r: "off x y z + 4095 < 2 ^ 63" .
    then have r': "int x * 16 * sizeX sz * sizeY sz + int y * 16 * sizeX sz + int z * 16 < 2 ^ 63"
      by (simp add: off_def)
    have so: "sectionOffset sz (int x) (int y) (int z) = off x y z"
      unfolding off_def by (rule sectionOffset_exact [OF s _ _ _ r']) simp_all
    have o0: "0 \<le> off x y z"
      unfolding off_def using s by simp
    have "fillSection blocks (off x y z) oor = Some (Blocks (sec x y z))"
      unfolding sec_def using fillSection_eq [OF o0 r] by simp
    then have body: "?bodyZ (int x) (int y) (int z) t = Some (t @ [sec x y z])"
      by (simp add: so co sec_def)
    have "Inv (Suc ((x * ny + y) * nz + z)) (t @ [sec x y z])"
      unfolding Inv_def
    proof (rule conjI, goal_cases)
      case 1
      show ?case using inv by (simp add: Inv_def)
    next
      case 2
      show ?case
      proof (intro allI impI)
        fix x' y' z'
        assume a: "y' < ny \<and> z' < nz \<and> (x' * ny + y') * nz + z' < Suc ((x * ny + y) * nz + z)"
        show "(t @ [sec x y z]) ! ((x' * ny + y') * nz + z') = sec x' y' z'"
        proof (cases "(x' * ny + y') * nz + z' < (x * ny + y) * nz + z")
          case True
          with a inv show ?thesis by (simp add: Inv_def nth_append)
        next
          case False
          with a have eq: "(x' * ny + y') * nz + z' = (x * ny + y) * nz + z" by simp
          with a \<open>y < ny\<close> \<open>z < nz\<close> have "x' = x \<and> y' = y \<and> z' = z"
            by (intro grid_index_inj [where ny = ny and nz = nz]) auto
          with eq inv show ?thesis by (simp add: Inv_def nth_append)
        qed
      qed
    qed
    with body show ?thesis by blast
  qed
  have loopZ: "\<exists>t'. ?bodyY (int x) (int y) t = Some t' \<and> Inv ((x * ny + Suc y) * nz) t'"
    if "x < k" "y < ny" and inv: "Inv ((x * ny + y) * nz) t" for x y t
  proof -
    let ?I = "\<lambda>c t. Inv ((x * ny + y) * nz + c) t"
    have init: "?I 0 t" using inv by simp
    have step: "\<exists>t'. ?bodyZ (int x) (int y) (int c) t = Some t' \<and> ?I (Suc c) t'"
      if "c < nat (int64 (sizeZ sz + 15) sdiv 16)" "?I c t" for c t
      using stepZ [OF \<open>x < k\<close> \<open>y < ny\<close> _ that(2)] that(1) by (simp add: nz_def)
    have "\<exists>t'. forInt (int64 (sizeZ sz + 15) sdiv 16) (?bodyZ (int x) (int y)) t = Some t' \<and>
            ?I (nat (int64 (sizeZ sz + 15) sdiv 16)) t'"
      by (rule forInt_rule [where I = ?I and body = "?bodyZ (int x) (int y)", OF init step])
    then show ?thesis by (simp add: nz_def algebra_simps)
  qed
  have loopY: "\<exists>t'. bodyX (int x) t = Some t' \<and> Inv ((Suc x * ny + 0) * nz) t'"
    if "x < k" and inv: "Inv ((x * ny + 0) * nz) t" for x t
  proof -
    let ?I = "\<lambda>c t. Inv ((x * ny + c) * nz) t"
    have init: "?I 0 t" using inv by simp
    have step: "\<exists>t'. ?bodyY (int x) (int c) t = Some t' \<and> ?I (Suc c) t'"
      if "c < nat (int64 (sizeY sz + 15) sdiv 16)" "?I c t" for c t
      using loopZ [OF \<open>x < k\<close> _ that(2)] that(1) by (simp add: ny_def)
    have "\<exists>t'. forInt (int64 (sizeY sz + 15) sdiv 16) (?bodyY (int x)) t = Some t' \<and>
            ?I (nat (int64 (sizeY sz + 15) sdiv 16)) t'"
      by (rule forInt_rule [where I = ?I and body = "?bodyY (int x)", OF init step])
    then show ?thesis by (simp add: ny_def bodyX_def algebra_simps)
  qed
  have "\<exists>t'. forUpto k (\<lambda>x. bodyX (int x)) [] = Some t' \<and> Inv ((k * ny + 0) * nz) t'"
  proof -
    let ?I = "\<lambda>c t. Inv ((c * ny + 0) * nz) t"
    have init: "?I 0 []" by (simp add: Inv_def)
    have step: "\<exists>t'. bodyX (int c) t = Some t' \<and> ?I (Suc c) t'" if "c < k" "?I c t" for c t
      using loopY [OF that] .
    show ?thesis
      by (rule forUpto_rule [where I = ?I and body = "\<lambda>x. bodyX (int x)", OF init step])
  qed
  then obtain t where t: "forUpto k (\<lambda>x. bodyX (int x)) [] = Some t" "Inv (k * ny * nz) t"
    by auto
  have "t ! ((x * ny + y) * nz + z) = sec x y z" if "x < k" "y < ny" "z < nz" for x y z
    using t(2) that grid_index_less [OF that] by (simp add: Inv_def)
  with t show ?thesis by (auto simp: Inv_def)
qed

lemma makeSections_forUpto:
  "makeSections sz blocks oor =
     forUpto (nat (int64 (sizeX sz + 15) sdiv 16)) (\<lambda>x.
       (\<lambda>x sections.
           forInt (int64 (sizeY sz + 15) sdiv 16) (\<lambda>y sections.
             forInt (int64 (sizeZ sz + 15) sdiv 16) (\<lambda>z sections. do {
               let offset = sectionOffset sz x y z;
               sectionBlocks \<leftarrow> fillSection blocks offset oor;
               Some (sections @ [\<lparr>X = int64 (x * 16), Y = int64 (y * 16), Z = int64 (z * 16),
                                 Blocks = sectionBlocks\<rparr>])
             }) sections) sections) (int x)) []"
  by (simp add: makeSections_def Let_def forInt_forUpto [of "int64 (sizeX sz + 15) sdiv 16"])

lemma makeSections_grid:
  fixes sz :: Size and blocks :: "int list" and oor :: int
  defines "nx \<equiv> nat (int64 (sizeX sz + 15) sdiv 16)"
    and "ny \<equiv> nat (int64 (sizeY sz + 15) sdiv 16)"
    and "nz \<equiv> nat (int64 (sizeZ sz + 15) sdiv 16)"
  defines "off \<equiv> \<lambda>x y z. int x * 16 * sizeX sz * sizeY sz + int y * 16 * sizeX sz + int z * 16"
  assumes T: "- (2 ^ 63) \<le> sizeX sz" "sizeX sz < 2 ^ 63" "- (2 ^ 63) \<le> sizeY sz" "sizeY sz < 2 ^ 63"
      "- (2 ^ 63) \<le> sizeZ sz" "sizeZ sz < 2 ^ 63"
    and R: "\<And>x y z. x < nx \<Longrightarrow> y < ny \<Longrightarrow> z < nz \<Longrightarrow> off x y z + 4095 < 2 ^ 63"
  shows "\<exists>secs. makeSections sz blocks oor = Some secs \<and> length secs = nx * ny * nz \<and>
           (\<forall>x y z. x < nx \<and> y < ny \<and> z < nz \<longrightarrow>
              secs ! ((x * ny + y) * nz + z) =
                \<lparr>X = int x * 16, Y = int y * 16, Z = int z * 16,
                 Blocks = map (\<lambda>i. if int i + off x y z \<ge> int (length blocks) then oor
                          else blocks ! nat (int i + off x y z)) [0..<4096]\<rparr>)"
  unfolding makeSections_forUpto nx_def ny_def nz_def off_def
  by (rule makeSections_prefix [OF T order_refl]) (use R in \<open>simp add: nx_def ny_def nz_def off_def\<close>)

lemma forInt_1: "forInt 1 body s = body 0 s"
  by (simp add: forInt_def split: option.splits)


text \<open>
  C3, with the condition under which it holds. Let the declared sizes be values of
  \<^verbatim>\<open>int\<close>, and let the offset arithmetic not wrap: at every grid position
  \<open>(x, y, z)\<close> the mathematical value of \<open>x*16*size.X*size.Y + y*16*size.X + z*16\<close>,
  plus 4095, is below \<open>2^63\<close> (so it is whenever every size is at most \<open>2^20\<close>, lemma
  \<open>small_sizes_do_not_wrap\<close>). Then the sectionizer returns: no read of the buffer
  panics. At every grid position the base offset the code computes is that mathematical
  value, and for every \<open>i\<close> in \<open>[0, 4096)\<close> the index \<open>i + base\<close> is not wrapped; the
  cell \<open>i\<close> of the section is the out-of-range id when \<open>base + i\<close> is at least the
  length of the buffer, and otherwise \<open>base + i\<close> is a position of the buffer and the
  cell is the buffer's entry there. The pipeline passes \<open>OutOfRangeBlockId = -1\<close>.
\<close>

theorem structure_section_cells:
  fixes sz :: Size and blocks :: "int list" and outOfRangeBlockId :: int
  defines "cx \<equiv> int64 (sizeX sz + 15) sdiv 16"
    and "cy \<equiv> int64 (sizeY sz + 15) sdiv 16"
    and "cz \<equiv> int64 (sizeZ sz + 15) sdiv 16"
  assumes T: "- (2 ^ 63) \<le> sizeX sz" "sizeX sz < 2 ^ 63" "- (2 ^ 63) \<le> sizeY sz" "sizeY sz < 2 ^ 63"
      "- (2 ^ 63) \<le> sizeZ sz" "sizeZ sz < 2 ^ 63"
    and R: "\<forall>x y z. 0 \<le> x \<and> x < cx \<and> 0 \<le> y \<and> y < cy \<and> 0 \<le> z \<and> z < cz \<longrightarrow>
        x * 16 * sizeX sz * sizeY sz + y * 16 * sizeX sz + z * 16 + 4095 < 2 ^ 63"
  shows "\<exists>sections. makeSections sz blocks outOfRangeBlockId = Some sections \<and>
           (\<forall>x y z i. 0 \<le> x \<and> x < cx \<and> 0 \<le> y \<and> y < cy \<and> 0 \<le> z \<and> z < cz \<and> 0 \<le> i \<and> i < 4096 \<longrightarrow>
              sectionOffset sz x y z = x * 16 * sizeX sz * sizeY sz + y * 16 * sizeX sz + z * 16 \<and>
              int64 (i + sectionOffset sz x y z) = i + sectionOffset sz x y z \<and>
              length (Blocks (sections ! nat ((x * cy + y) * cz + z))) = 4096 \<and>
              (sectionOffset sz x y z + i \<ge> int (length blocks) \<longrightarrow>
                 Blocks (sections ! nat ((x * cy + y) * cz + z)) ! nat i = outOfRangeBlockId) \<and>
              (sectionOffset sz x y z + i < int (length blocks) \<longrightarrow>
                 0 \<le> sectionOffset sz x y z + i \<and>
                 indexInt blocks (sectionOffset sz x y z + i) =
                   Some (Blocks (sections ! nat ((x * cy + y) * cz + z)) ! nat i)))"
proof -
  let ?off = "\<lambda>x y z. int x * 16 * sizeX sz * sizeY sz + int y * 16 * sizeX sz + int z * 16"
  have R': "?off x y z + 4095 < 2 ^ 63" if "x < nat cx" "y < nat cy" "z < nat cz" for x y z
    by (rule R [rule_format]) (use that in auto)
  from makeSections_grid [of sz blocks outOfRangeBlockId, OF T R' [unfolded cx_def cy_def cz_def]]
  obtain secs where secs: "makeSections sz blocks outOfRangeBlockId = Some secs"
    and cells: "\<And>x y z. x < nat cx \<Longrightarrow> y < nat cy \<Longrightarrow> z < nat cz \<Longrightarrow>
      secs ! ((x * nat cy + y) * nat cz + z) =
        \<lparr>X = int x * 16, Y = int y * 16, Z = int z * 16,
         Blocks = map (\<lambda>i. if int i + ?off x y z \<ge> int (length blocks)
                          then outOfRangeBlockId
                          else blocks ! nat (int i + ?off x y z))
                 [0..<4096]\<rparr>"
    unfolding cx_def cy_def cz_def by blast
  have "sectionOffset sz x y z = x * 16 * sizeX sz * sizeY sz + y * 16 * sizeX sz + z * 16 \<and>
        int64 (i + sectionOffset sz x y z) = i + sectionOffset sz x y z \<and>
        length (Blocks (secs ! nat ((x * cy + y) * cz + z))) = 4096 \<and>
        (sectionOffset sz x y z + i \<ge> int (length blocks) \<longrightarrow>
           Blocks (secs ! nat ((x * cy + y) * cz + z)) ! nat i = outOfRangeBlockId) \<and>
        (sectionOffset sz x y z + i < int (length blocks) \<longrightarrow>
           0 \<le> sectionOffset sz x y z + i \<and>
           indexInt blocks (sectionOffset sz x y z + i) =
             Some (Blocks (secs ! nat ((x * cy + y) * cz + z)) ! nat i))"
    if g: "0 \<le> x" "x < cx" "0 \<le> y" "y < cy" "0 \<le> z" "z < cz" "0 \<le> i" "i < 4096" for x y z i
  proof -
    let ?m = "x * 16 * sizeX sz * sizeY sz + y * 16 * sizeX sz + z * 16"
    have idx: "nat ((x * cy + y) * cz + z) = (nat x * nat cy + nat y) * nat cz + nat z"
      using g by (simp add: nat_add_distrib nat_mult_distrib)
    from g have pos: "0 < int64 (sizeX sz + 15) sdiv 16" "0 < int64 (sizeY sz + 15) sdiv 16"
      unfolding cx_def cy_def by linarith+
    have s: "1 \<le> sizeX sz" "1 \<le> sizeY sz"
      using sectionCount64(1) [OF T(1,2) pos(1)] sectionCount64(1) [OF T(3,4) pos(2)] by simp_all
    from R g have r: "?m + 4095 < 2 ^ 63" by blast
    then have "?m < 2 ^ 63" by simp
    from sectionOffset_exact [OF s g(1,3,5) this] have so: "sectionOffset sz x y z = ?m" .
    from s g have m0: "0 \<le> ?m" by simp
    from m0 r g have wrap: "int64 (i + ?m) = i + ?m" by (intro int64_id) simp_all
    from g have "nat x < nat cx" "nat y < nat cy" "nat z < nat cz" by auto
    from cells [OF this] g
    have B: "Blocks (secs ! nat ((x * cy + y) * cz + z)) =
        map (\<lambda>j. if int j + ?m \<ge> int (length blocks) then outOfRangeBlockId
                          else blocks ! nat (int j + ?m)) [0..<4096]"
      unfolding idx by simp
    from g have i: "nat i < 4096" "int (nat i) = i" by auto
    have "Blocks (secs ! nat ((x * cy + y) * cz + z)) ! nat i =
        (if i + ?m \<ge> int (length blocks) then outOfRangeBlockId else blocks ! nat (i + ?m))"
      unfolding B using i by simp
    moreover have "length (Blocks (secs ! nat ((x * cy + y) * cz + z))) = 4096"
      unfolding B by simp
    ultimately show ?thesis
      unfolding so using m0 g wrap by (simp add: indexInt_def add.commute)
  qed
  with secs show ?thesis by blast
qed


theorem structure_section_cells_witness:
  "\<exists>sections. makeSections \<lparr>sizeX = 2, sizeY = 2, sizeZ = 2\<rparr> [1, 3, 1, 3, 1, 3, 1, 3] OutOfRangeBlockId
        = Some sections \<and>
     length (Blocks (sections ! 0)) = 4096 \<and>
     Blocks (sections ! 0) ! 1 = 3 \<and> Blocks (sections ! 0) ! 7 = 3 \<and>
     Blocks (sections ! 0) ! 8 = - 1 \<and> Blocks (sections ! 0) ! 4095 = - 1"
proof -
  let ?sz = "\<lparr>sizeX = 2, sizeY = 2, sizeZ = 2\<rparr>"
  let ?B = "[1, 3, 1, 3, 1, 3, 1, 3 :: int]"
  have sd: "int64 17 sdiv 16 = 1" by (simp add: int64_def signed_divide_int_def)
  have T: "- (2 ^ 63) \<le> sizeX ?sz" "sizeX ?sz < 2 ^ 63" "- (2 ^ 63) \<le> sizeY ?sz" "sizeY ?sz < 2 ^ 63"
      "- (2 ^ 63) \<le> sizeZ ?sz" "sizeZ ?sz < 2 ^ 63"
    by simp_all
  have R: "\<forall>x y z. 0 \<le> x \<and> x < int64 (sizeX ?sz + 15) sdiv 16 \<and>
      0 \<le> y \<and> y < int64 (sizeY ?sz + 15) sdiv 16 \<and> 0 \<le> z \<and> z < int64 (sizeZ ?sz + 15) sdiv 16 \<longrightarrow>
        x * 16 * sizeX ?sz * sizeY ?sz + y * 16 * sizeX ?sz + z * 16 + 4095 < 2 ^ 63"
    by (simp add: sd)
  let ?cx = "int64 (sizeX ?sz + 15) sdiv 16" and ?cy = "int64 (sizeY ?sz + 15) sdiv 16"
    and ?cz = "int64 (sizeZ ?sz + 15) sdiv 16"
  from structure_section_cells [of ?sz, OF T R, of ?B OutOfRangeBlockId]
  obtain secs where secs: "makeSections ?sz ?B OutOfRangeBlockId = Some secs"
    and all: "\<forall>x y z i. 0 \<le> x \<and> x < ?cx \<and> 0 \<le> y \<and> y < ?cy \<and> 0 \<le> z \<and> z < ?cz \<and> 0 \<le> i \<and> i < 4096 \<longrightarrow>
              sectionOffset ?sz x y z = x * 16 * sizeX ?sz * sizeY ?sz + y * 16 * sizeX ?sz + z * 16 \<and>
              int64 (i + sectionOffset ?sz x y z) = i + sectionOffset ?sz x y z \<and>
              length (Blocks (secs ! nat ((x * ?cy + y) * ?cz + z))) = 4096 \<and>
              (sectionOffset ?sz x y z + i \<ge> int (length ?B) \<longrightarrow>
                 Blocks (secs ! nat ((x * ?cy + y) * ?cz + z)) ! nat i = OutOfRangeBlockId) \<and>
              (sectionOffset ?sz x y z + i < int (length ?B) \<longrightarrow>
                 0 \<le> sectionOffset ?sz x y z + i \<and>
                 indexInt ?B (sectionOffset ?sz x y z + i) =
                   Some (Blocks (secs ! nat ((x * ?cy + y) * ?cz + z)) ! nat i))"
    by blast
  note cells = all [rule_format]
  have so: "sectionOffset ?sz 0 0 0 = 0" by (simp add: sectionOffset_def int64_def)
  from cells [of 0 0 0 1] have "Blocks (secs ! 0) ! 1 = 3" "length (Blocks (secs ! 0)) = 4096"
    by (simp_all add: sd so indexInt_def)
  moreover from cells [of 0 0 0 7] have "Blocks (secs ! 0) ! 7 = 3"
    by (simp add: sd so indexInt_def)
  moreover from cells [of 0 0 0 8] have "Blocks (secs ! 0) ! 8 = - 1"
    by (simp add: sd so OutOfRangeBlockId_def)
  moreover from cells [of 0 0 0 4095] have "Blocks (secs ! 0) ! 4095 = - 1"
    by (simp add: sd so OutOfRangeBlockId_def)
  ultimately show ?thesis using secs by simp
qed

text \<open>
  Without the condition on the offsets the statement of C3 fails, also on an input that
  satisfies the schema and passes \<^verbatim>\<open>validateInput\<close>: size \<open>(2^32, 1, 1)\<close> with
  \<open>2^32\<close> indices 0 and a palette of one name. The grid has \<open>2^28\<close> positions along
  \<open>x\<close>; at \<open>x = 2^27\<close> the offset \<open>2^27 * 16 * 2^32 = 2^63\<close> wraps to \<open>-2^63\<close>, the
  guard \<^verbatim>\<open>i+offset >= len(blocks)\<close> is false, and the read
  \<^verbatim>\<open>blocks[i+offset]\<close> panics.
\<close>

theorem structure_section_read_wraps:
  "inputJsonSchema \<lparr>size3 = \<lparr>sizeX = 4294967296, sizeY = 1, sizeZ = 1\<rparr>,
      block_indices = replicate 4294967296 0, block_palette = [''minecraft:stone'']\<rparr> \<and>
   validateInput \<lparr>size3 = \<lparr>sizeX = 4294967296, sizeY = 1, sizeZ = 1\<rparr>,
      block_indices = replicate 4294967296 0, block_palette = [''minecraft:stone'']\<rparr> \<and>
   resolveBlocks [''minecraft:stone''] Map.empty DefaultBlockId (replicate 4294967296 0) =
      Some (replicate 4294967296 0) \<and>
   134217728 < int64 (sizeX \<lparr>sizeX = 4294967296, sizeY = 1, sizeZ = 1\<rparr> + 15) sdiv 16 \<and>
   sectionOffset \<lparr>sizeX = 4294967296, sizeY = 1, sizeZ = 1\<rparr> 134217728 0 0 = - 9223372036854775808 \<and>
   makeSections \<lparr>sizeX = 4294967296, sizeY = 1, sizeZ = 1\<rparr> (replicate 4294967296 0) OutOfRangeBlockId = None \<and>
   convertToSections_structure \<lparr>size3 = \<lparr>sizeX = 4294967296, sizeY = 1, sizeZ = 1\<rparr>,
      block_indices = replicate 4294967296 0, block_palette = [''minecraft:stone'']\<rparr>
      Map.empty DefaultBlockId OutOfRangeBlockId = None"
proof -
  define sz where "sz = \<lparr>sizeX = 4294967296, sizeY = 1, sizeZ = 1\<rparr>"
  define B :: "int list" where "B = replicate 4294967296 0"
  define inp where "inp = \<lparr>size3 = sz, block_indices = B, block_palette = [''minecraft:stone'']\<rparr>"
  define k :: nat where "k = 134217728"
  have s: "sizeX sz = 4294967296" "sizeY sz = 1" "sizeZ sz = 1" by (simp_all add: sz_def)
  have lB: "length B = 4294967296" and nB: "\<And>i. i < length B \<Longrightarrow> B ! i = 0"
    and sB: "set B = {0}" and neB: "B \<noteq> []"
    by (simp_all add: B_def)
  have cnt: "int64 (sizeX sz + 15) sdiv 16 = 268435456" "int64 (sizeY sz + 15) sdiv 16 = 1"
    "int64 (sizeZ sz + 15) sdiv 16 = 1"
    by (simp_all add: s int64_def signed_divide_int_def)
  have schema: "inputJsonSchema inp"
    by (simp add: inputJsonSchema_def inp_def s neB)
  have valid: "validateInput inp"
    by (simp add: validateInput_iff inp_def s lB sB)
  have "resolveBlocks [''minecraft:stone''] Map.empty DefaultBlockId B =
      Some (map (\<lambda>b. case Map.empty ([''minecraft:stone''] ! nat b) of Some v \<Rightarrow> v | None \<Rightarrow> DefaultBlockId) B)"
    by (rule resolveBlocks_eq) (simp add: nB)
  also have "map (\<lambda>b. case Map.empty ([''minecraft:stone''] ! nat b) of Some v \<Rightarrow> v | None \<Rightarrow> DefaultBlockId) B = B"
    by (simp add: B_def DefaultBlockId_def)
  finally have res: "resolveBlocks [''minecraft:stone''] Map.empty DefaultBlockId B = Some B" .
  have off: "sectionOffset sz 134217728 0 0 = - 9223372036854775808"
    by (simp add: sectionOffset_def s int64_def)
  let ?bodyX = "\<lambda>x sections.
           forInt (int64 (sizeY sz + 15) sdiv 16) (\<lambda>y sections.
             forInt (int64 (sizeZ sz + 15) sdiv 16) (\<lambda>z sections. do {
               let offset = sectionOffset sz x y z;
               sectionBlocks \<leftarrow> fillSection B offset OutOfRangeBlockId;
               Some (sections @ [\<lparr>X = int64 (x * 16), Y = int64 (y * 16), Z = int64 (z * 16),
                                 Blocks = sectionBlocks\<rparr>])
             }) sections) sections"
  have T: "- (2 ^ 63) \<le> sizeX sz" "sizeX sz < 2 ^ 63" "- (2 ^ 63) \<le> sizeY sz" "sizeY sz < 2 ^ 63"
      "- (2 ^ 63) \<le> sizeZ sz" "sizeZ sz < 2 ^ 63"
    by (simp_all add: s)
  have kle: "k \<le> nat (int64 (sizeX sz + 15) sdiv 16)" and klt: "k < nat (int64 (sizeX sz + 15) sdiv 16)"
    by (simp_all add: cnt k_def)
  have R: "int x * 16 * sizeX sz * sizeY sz + int y * 16 * sizeX sz + int z * 16 + 4095 < 2 ^ 63"
    if "x < k" "y < nat (int64 (sizeY sz + 15) sdiv 16)" "z < nat (int64 (sizeZ sz + 15) sdiv 16)" for x y z
  proof -
    from that have "int x \<le> 134217727" "y = 0" "z = 0" by (simp_all add: cnt k_def)
    then show ?thesis by (simp add: s)
  qed
  from makeSections_prefix [of sz k B OutOfRangeBlockId, OF T kle R]
  obtain t where pre: "forUpto k (\<lambda>x. ?bodyX (int x)) [] = Some t" by blast
  have "int64 (sectionOffset sz (int k) 0 0) < 0"
    by (simp add: k_def off) (simp add: int64_def)
  then have "fillSection B (sectionOffset sz (int k) 0 0) OutOfRangeBlockId = None"
    by (rule fillSection_negative)
  then have fail: "?bodyX (int k) t = None"
    by (simp add: cnt forInt_1)
  have mk: "makeSections sz B OutOfRangeBlockId = None"
    unfolding makeSections_forUpto
    by (rule forUpto_fails_at [where body = "\<lambda>x. ?bodyX (int x)", OF klt pre fail])
  with res have "convertToSections_structure inp Map.empty DefaultBlockId OutOfRangeBlockId = None"
    by (simp add: convertToSections_structure_def inp_def)
  moreover have "134217728 < int64 (sizeX sz + 15) sdiv 16" by (simp add: cnt)
  ultimately show ?thesis
    using schema valid res off mk unfolding inp_def B_def sz_def by simp
qed

subsection \<open>The dense pipeline: padding\<close>

lemma copy_go_length: "length (copy_go dst src) = length dst"
  by (simp add: copy_go_def)

lemma copy_go_nth:
  assumes "length src \<le> length dst" "k < length dst"
  shows "copy_go dst src ! k = (if k < length src then src ! k else dst ! k)"
  using assms by (simp add: copy_go_def nth_append)

lemma pair_index_inj:
  fixes i j i' j' :: nat
  assumes "j < n" "j' < n" "i * n + j = i' * n + j'"
  shows "i = i' \<and> j = j'"
proof -
  from assms(3) have "(i * n + j) mod n = (i' * n + j') mod n" by simp
  with assms(1,2) have j: "j = j'" by simp
  from assms(3) have "(i * n + j) div n = (i' * n + j') div n" by simp
  with assms(1,2) have "i = i'" by simp
  with j show ?thesis by simp
qed

lemma round_up_16: "n \<le> (n + 15) div 16 * 16" "16 dvd (n + 15) div 16 * 16" "(n + 15) div 16 * 16 < n + 16"
  for n :: nat
  by presburger+

lemma padArray_cells:
  fixes V :: volume and pv :: int
  assumes len: "length V = nx"
    and rows: "\<And>i. i < nx \<Longrightarrow> length (V ! i) = ny"
    and leaves: "\<And>i j. i < nx \<Longrightarrow> j < ny \<Longrightarrow> length (V ! i ! j) = nz"
    and pos: "0 < nx" "0 < ny"
  defines "sx \<equiv> (nx + 15) div 16 * 16"
    and "sy \<equiv> (ny + 15) div 16 * 16"
    and "sz \<equiv> (nz + 15) div 16 * 16"
  shows "\<exists>P. padArray V pv = Some P \<and> length P = sx \<and>
           (\<forall>i<sx. length (P ! i) = sy \<and>
              (\<forall>j<sy. length (P ! i ! j) = sz \<and>
                 (\<forall>k<sz. P ! i ! j ! k = (if i < nx \<and> j < ny \<and> k < nz then V ! i ! j ! k else pv))))"
proof -
  define Inv where "Inv c p \<longleftrightarrow> length p = sx \<and>
      (\<forall>i<sx. length (p ! i) = sy \<and>
         (\<forall>j<sy. length (p ! i ! j) = sz \<and>
            (\<forall>k<sz. p ! i ! j ! k =
               (if i < nx \<and> j < ny \<and> i * ny + j < c \<and> k < nz then V ! i ! j ! k else pv))))"
    for c and p :: volume
  have le: "nx \<le> sx" "ny \<le> sy" "nz \<le> sz"
    unfolding sx_def sy_def sz_def by (rule round_up_16)+
  have stepJ: "\<exists>p'. padCopy V i j p = Some p' \<and> Inv (Suc (i * ny + j)) p'"
    if i: "i < nx" and j: "j < ny" and inv: "Inv (i * ny + j) p" for i j p
  proof -
    from inv have lp: "length p = sx" "length (p ! i) = sy" "length (p ! i ! j) = sz"
      using i j le by (auto simp: Inv_def)
    let ?new = "copy_go (p ! i ! j) (V ! i ! j)"
    let ?p' = "p[i := (p ! i)[j := ?new]]"
    have body: "padCopy V i j p = Some ?p'"
      using i j le lp len rows [OF i] by (simp add: padCopy_def index_def assign_def)
    have lnew: "length ?new = sz" by (simp add: copy_go_length lp)
    have new: "?new ! k = (if k < nz then V ! i ! j ! k else p ! i ! j ! k)" if "k < sz" for k
      using that le lp leaves [OF i j] by (simp add: copy_go_nth)
    have "Inv (Suc (i * ny + j)) ?p'"
      unfolding Inv_def
    proof (intro conjI allI impI)
      show "length ?p' = sx" using lp by simp
    next
      fix i' assume i': "i' < sx"
      show "length (?p' ! i') = sy"
        using inv i' lp i le by (cases "i' = i") (auto simp: Inv_def)
    next
      fix i' j' assume i': "i' < sx" and j': "j' < sy"
      show "length (?p' ! i' ! j') = sz"
        using inv i' j' lp i j le lnew by (cases "i' = i"; cases "j' = j") (auto simp: Inv_def)
    next
      fix i' j' k assume i': "i' < sx" and j': "j' < sy" and k: "k < sz"
      from inv i' j' k have old: "p ! i' ! j' ! k =
          (if i' < nx \<and> j' < ny \<and> i' * ny + j' < i * ny + j \<and> k < nz then V ! i' ! j' ! k else pv)"
        by (simp add: Inv_def)
      show "?p' ! i' ! j' ! k =
          (if i' < nx \<and> j' < ny \<and> i' * ny + j' < Suc (i * ny + j) \<and> k < nz then V ! i' ! j' ! k else pv)"
      proof (cases "i' = i \<and> j' = j")
        case True
        with old new [OF k] lp i j le show ?thesis by simp
      next
        case False
        have "j' < ny \<Longrightarrow> i' * ny + j' \<noteq> i * ny + j"
          using pair_index_inj [of j' ny j i' i] j False by blast
        then have "(j' < ny \<and> i' * ny + j' < Suc (i * ny + j)) = (j' < ny \<and> i' * ny + j' < i * ny + j)"
          by auto
        moreover from False lp i j le have "?p' ! i' ! j' = p ! i' ! j'"
          by (cases "i' = i") (auto simp: nth_list_update)
        ultimately show ?thesis using old by auto
      qed
    qed
    with body show ?thesis by blast
  qed
  have loopJ: "\<exists>p'. forUpto (length (V ! i)) (\<lambda>j p. padCopy V i j p) p = Some p' \<and> Inv (Suc i * ny) p'"
    if i: "i < nx" and inv: "Inv (i * ny) p" for i p
  proof -
    let ?I = "\<lambda>k t. Inv (i * ny + k) t"
    have init: "?I 0 p" using inv by simp
    have step: "\<exists>t'. padCopy V i k t = Some t' \<and> ?I (Suc k) t'" if "k < length (V ! i)" "?I k t" for k t
      using stepJ [OF i _ that(2)] that(1) rows [OF i] by simp
    have "\<exists>t'. forUpto (length (V ! i)) (\<lambda>j p. padCopy V i j p) p = Some t' \<and> ?I (length (V ! i)) t'"
      by (rule forUpto_rule [where I = ?I and body = "\<lambda>j p. padCopy V i j p", OF init step])
    then show ?thesis by (simp add: rows [OF i] algebra_simps)
  qed
  let ?p0 = "replicate sx (replicate sy (replicate sz pv))"
  let ?bodyI = "\<lambda>i p. forUpto (length (V ! i)) (\<lambda>j p. padCopy V i j p) p"
  have "\<exists>t'. forUpto (length V) ?bodyI ?p0 = Some t' \<and> Inv (length V * ny) t'"
  proof -
    let ?I = "\<lambda>k t. Inv (k * ny) t"
    have init: "?I 0 ?p0" by (simp add: Inv_def)
    have step: "\<exists>t'. ?bodyI k t = Some t' \<and> ?I (Suc k) t'" if "k < length V" "?I k t" for k t
      using loopJ [OF _ that(2)] that(1) len by simp
    show ?thesis
      by (rule forUpto_rule [where I = ?I and body = ?bodyI, OF init step])
  qed
  then obtain P where P: "forUpto (length V) ?bodyI ?p0 = Some P" "Inv (nx * ny) P"
    using len by auto
  from pos len rows [of 0] have "index V 0 = Some (V ! 0)" "index (V ! 0) 0 = Some (V ! 0 ! 0)"
    by (simp_all add: index_def)
  with pos len rows [of 0] leaves [of 0 0]
  have "padArray V pv = forUpto (length V) ?bodyI ?p0"
    by (simp add: padArray_def Let_def sx_def sy_def sz_def)
  moreover have "i * ny + j < nx * ny" if "i < nx" "j < ny" for i j
  proof -
    have "i * ny + j < Suc i * ny" using that by simp
    also have "\<dots> \<le> nx * ny" using that by (intro mult_le_mono1) simp
    finally show ?thesis .
  qed
  ultimately show ?thesis using P by (auto simp: Inv_def)
qed

text \<open>
  C2. For every dense volume \<open>V\<close> with \<open>nx \<ge> 1\<close> first-level rows, each of
  \<open>ny \<ge> 1\<close> leaves, each leaf of length \<open>nz\<close>, \<^verbatim>\<open>padArray\<close> returns a
  volume whose extent on each axis is \<open>(n + 15) div 16 * 16\<close>, the least multiple of 16 that is at least the
  extent \<open>n\<close> of \<open>V\<close> (that is, \<open>ceil(n/16)*16\<close>); every cell \<open>(i, j, k)\<close> inside the
  extents of \<open>V\<close> equals \<open>V[i][j][k]\<close>, and every other cell equals the padding value,
  for which the pipeline passes -1. The leaf length \<open>nz\<close> may be any number, 0 included.
\<close>

theorem padArray_prefix_and_sentinel:
  fixes V :: volume and paddingValue :: int
  assumes len: "length V = nx"
    and rect: "\<forall>plane\<in>set V. length plane = ny \<and> (\<forall>row\<in>set plane. length row = nz)"
    and pos: "1 \<le> nx" "1 \<le> ny"
  shows "\<exists>P. padArray V paddingValue = Some P \<and>
           length P = (nx + 15) div 16 * 16 \<and>
           16 dvd (nx + 15) div 16 * 16 \<and> nx \<le> (nx + 15) div 16 * 16 \<and> (nx + 15) div 16 * 16 < nx + 16 \<and>
           16 dvd (ny + 15) div 16 * 16 \<and> ny \<le> (ny + 15) div 16 * 16 \<and> (ny + 15) div 16 * 16 < ny + 16 \<and>
           16 dvd (nz + 15) div 16 * 16 \<and> nz \<le> (nz + 15) div 16 * 16 \<and> (nz + 15) div 16 * 16 < nz + 16 \<and>
           (\<forall>i<(nx + 15) div 16 * 16. length (P ! i) = (ny + 15) div 16 * 16 \<and>
              (\<forall>j<(ny + 15) div 16 * 16. length (P ! i ! j) = (nz + 15) div 16 * 16 \<and>
                 (\<forall>k<(nz + 15) div 16 * 16.
                    P ! i ! j ! k = (if i < nx \<and> j < ny \<and> k < nz then V ! i ! j ! k else paddingValue))))"
proof -
  have rows: "length (V ! i) = ny" if "i < nx" for i
    using rect len that by (simp add: nth_mem)
  have leaves: "length (V ! i ! j) = nz" if "i < nx" "j < ny" for i j
  proof -
    from that len have "V ! i \<in> set V" by (simp add: nth_mem)
    moreover from that rows have "V ! i ! j \<in> set (V ! i)" by (simp add: nth_mem)
    ultimately show ?thesis using rect by blast
  qed
  from pos have pos': "0 < nx" "0 < ny" by simp_all
  from padArray_cells [of V nx ny nz paddingValue, OF len rows leaves pos']
  obtain P where P: "padArray V paddingValue = Some P" "length P = (nx + 15) div 16 * 16"
    "\<forall>i<(nx + 15) div 16 * 16. length (P ! i) = (ny + 15) div 16 * 16 \<and>
              (\<forall>j<(ny + 15) div 16 * 16. length (P ! i ! j) = (nz + 15) div 16 * 16 \<and>
                 (\<forall>k<(nz + 15) div 16 * 16.
                    P ! i ! j ! k = (if i < nx \<and> j < ny \<and> k < nz then V ! i ! j ! k else paddingValue)))"
    by blast
  show ?thesis
    using P round_up_16 [of nx] round_up_16 [of ny] round_up_16 [of nz] by blast
qed

theorem padArray_prefix_and_sentinel_witness:
  "\<exists>P. padArray [[[5, 6]], [[7, 8]]] (- 1) = Some P \<and> length P = 16 \<and> length (P ! 0) = 16 \<and>
     length (P ! 0 ! 0) = 16 \<and> P ! 1 ! 0 ! 1 = 8 \<and> P ! 1 ! 0 ! 2 = - 1 \<and> P ! 2 ! 0 ! 0 = - 1 \<and>
     P ! 15 ! 15 ! 15 = - 1"
proof -
  let ?V = "[[[5, 6]], [[7, 8 :: int]]]"
  have h: "length ?V = 2" "\<forall>plane\<in>set ?V. length plane = 1 \<and> (\<forall>row\<in>set plane. length row = 2)"
    "1 \<le> (2 :: nat)" "1 \<le> (1 :: nat)"
    by simp_all
  from padArray_prefix_and_sentinel [OF h, of "- 1"]
  obtain P where P: "padArray ?V (- 1) = Some P" "length P = 16"
    and cells: "\<And>i j k. i < 16 \<Longrightarrow> j < 16 \<Longrightarrow> k < 16 \<Longrightarrow>
        length (P ! i) = 16 \<and> length (P ! i ! j) = 16 \<and>
        P ! i ! j ! k = (if i < 2 \<and> j < 1 \<and> k < 2 then ?V ! i ! j ! k else - 1)"
    by auto
  from cells [of 1 0 1] cells [of 1 0 2] cells [of 2 0 0] cells [of 15 15 15] cells [of 0 0 0] P
  show ?thesis by simp
qed

subsection \<open>The dense pipeline: sections\<close>

lemma makeBlocks_eq:
  fixes P :: volume
  assumes len: "i * 16 + 16 \<le> length P"
    and rows: "\<And>l. l < 16 \<Longrightarrow> j * 16 + 16 \<le> length (P ! (i * 16 + l))"
    and leaves: "\<And>l m. l < 16 \<Longrightarrow> m < 16 \<Longrightarrow> k * 16 + 16 \<le> length (P ! (i * 16 + l) ! (j * 16 + m))"
  shows "makeBlocks P i j k =
           Some (map (\<lambda>l. map (\<lambda>m. map (\<lambda>q. P ! (i * 16 + l) ! (j * 16 + m) ! (k * 16 + q)) [0..<16])
                   [0..<16]) [0..<16])"
proof -
  let ?row = "\<lambda>l m. map (\<lambda>q. P ! (i * 16 + l) ! (j * 16 + m) ! (k * 16 + q)) [0..<16]"
  let ?plane = "\<lambda>l. map (?row l) [0..<16]"
  let ?bodyM = "\<lambda>l m blocks. do {
         plane \<leftarrow> index blocks l;
         plane \<leftarrow> assign plane m (replicate 16 0);
         blocks \<leftarrow> assign blocks l plane;
         srcPlane \<leftarrow> index P (i * 16 + l);
         srcRow \<leftarrow> index srcPlane (j * 16 + m);
         src \<leftarrow> slice srcRow (k * 16) ((k + 1) * 16);
         plane \<leftarrow> index blocks l;
         dst \<leftarrow> index plane m;
         plane \<leftarrow> assign plane m (copy_go dst src);
         assign blocks l plane
       }"
  let ?bodyL = "\<lambda>l blocks. do {
       blocks \<leftarrow> assign blocks l (replicate 16 []);
       forUpto 16 (?bodyM l) blocks
     }"
  let ?IL = "\<lambda>l (t :: volume). length t = 16 \<and> (\<forall>l'<l. t ! l' = ?plane l')"
  have src: "slice (P ! (i * 16 + l) ! (j * 16 + m)) (k * 16) ((k + 1) * 16) = Some (?row l m)"
    if "l < 16" "m < 16" for l m
  proof -
    have "take 16 (drop (k * 16) (P ! (i * 16 + l) ! (j * 16 + m))) = ?row l m"
      using leaves [OF that] by (intro nth_equalityI) (auto simp: add.commute)
    with leaves [OF that] show ?thesis by (simp add: slice_def)
  qed
  have stepL: "\<exists>t'. ?bodyL l t = Some t' \<and> ?IL (Suc l) t'" if l: "l < 16" and inv: "?IL l t" for l t
  proof -
    let ?t1 = "t[l := replicate 16 []]"
    let ?IM = "\<lambda>m (u :: volume). length u = 16 \<and> (\<forall>l'<l. u ! l' = ?plane l') \<and>
        length (u ! l) = 16 \<and> (\<forall>m'<m. u ! l ! m' = ?row l m')"
    have init: "?IM 0 ?t1" using inv l by simp
    have stepM: "\<exists>u'. ?bodyM l m u = Some u' \<and> ?IM (Suc m) u'" if m: "m < 16" and invM: "?IM m u" for m u
    proof -
      have "copy_go (replicate 16 0) (?row l m) = ?row l m"
        by (simp add: copy_go_def)
      with invM l m len rows [OF l] src [OF l m]
      have "?bodyM l m u = Some (u[l := (u ! l)[m := ?row l m]])"
        by (simp add: index_def assign_def)
      moreover from invM l m have "?IM (Suc m) (u[l := (u ! l)[m := ?row l m]])"
        by (auto simp: nth_list_update less_Suc_eq)
      ultimately show ?thesis by blast
    qed
    have "\<exists>u'. forUpto 16 (?bodyM l) ?t1 = Some u' \<and> ?IM 16 u'"
      by (rule forUpto_rule [where I = ?IM and body = "?bodyM l", OF init stepM])
    then obtain u' where u': "forUpto 16 (?bodyM l) ?t1 = Some u'" "?IM 16 u'" by blast
    from u'(2) have "u' ! l = ?plane l"
      by (intro nth_equalityI) auto
    with u'(2) have "?IL (Suc l) u'" by (auto simp: less_Suc_eq)
    moreover from inv l u'(1) have "?bodyL l t = Some u'" by (simp add: assign_def)
    ultimately show ?thesis by blast
  qed
  have init: "?IL 0 (replicate 16 [])" by simp
  have "\<exists>t'. forUpto 16 ?bodyL (replicate 16 []) = Some t' \<and> ?IL 16 t'"
    by (rule forUpto_rule [where I = ?IL and body = ?bodyL, OF init stepL])
  then obtain t' where t': "makeBlocks P i j k = Some t'" "?IL 16 t'"
    unfolding makeBlocks_def by blast
  from t'(2) have "t' = map ?plane [0..<16]"
    by (intro nth_equalityI) auto
  with t'(1) show ?thesis by simp
qed

lemma convertToSections_grid:
  fixes P :: volume
  assumes len: "length P = nx"
    and rows: "\<And>a. a < nx \<Longrightarrow> length (P ! a) = ny"
    and leaves: "\<And>a b. a < nx \<Longrightarrow> b < ny \<Longrightarrow> length (P ! a ! b) = nz"
    and pos: "0 < nx" "0 < ny"
  defines "xs \<equiv> nx div 16" and "ys \<equiv> ny div 16" and "zs \<equiv> nz div 16"
  defines "sec \<equiv> \<lambda>i j k. \<lparr>X = int i * 16, Y = int j * 16, Z = int k * 16,
      Blocks = map (\<lambda>l. map (\<lambda>m. map (\<lambda>q. P ! (i * 16 + l) ! (j * 16 + m) ! (k * 16 + q)) [0..<16])
                   [0..<16]) [0..<16]\<rparr>"
  shows "\<exists>secs. convertToSections P = Some secs \<and> length secs = xs * ys * zs \<and>
           (\<forall>i j k. i < xs \<and> j < ys \<and> k < zs \<longrightarrow> secs ! ((i * ys + j) * zs + k) = sec i j k)"
proof -
  define Inv where "Inv c t \<longleftrightarrow> length t = xs * ys * zs \<and>
      (\<forall>i j k. i < xs \<and> j < ys \<and> k < zs \<and> (i * zs + k) * ys + j < c \<longrightarrow>
         t ! ((i * ys + j) * zs + k) = sec i j k)"
    for c and t :: "volume Section list"
  let ?bodyJ = "\<lambda>i k j sections. do {
           blocks \<leftarrow> makeBlocks P i j k;
           assign sections (i * ys * zs + j * zs + k)
             \<lparr>X = int i * 16, Y = int j * 16, Z = int k * 16, Blocks = blocks\<rparr>
         }"
  let ?bodyK = "\<lambda>i k sections. forUpto ys (?bodyJ i k) sections"
  let ?bodyI = "\<lambda>i sections. forUpto zs (?bodyK i) sections"
  have stepJ: "\<exists>t'. ?bodyJ i k j t = Some t' \<and> Inv (Suc ((i * zs + k) * ys + j)) t'"
    if g: "i < xs" "k < zs" "j < ys" and inv: "Inv ((i * zs + k) * ys + j) t" for i k j t
  proof -
    from g have b: "i * 16 + 16 \<le> nx" "j * 16 + 16 \<le> ny" "k * 16 + 16 \<le> nz"
      unfolding xs_def ys_def zs_def by linarith+
    have r: "j * 16 + 16 \<le> length (P ! (i * 16 + l))" if "l < 16" for l
      using rows [of "i * 16 + l"] b that by simp
    have lv: "k * 16 + 16 \<le> length (P ! (i * 16 + l) ! (j * 16 + m))" if "l < 16" "m < 16" for l m
      using leaves [of "i * 16 + l" "j * 16 + m"] b that by simp
    have l0: "i * 16 + 16 \<le> length P" using b len by simp
    have blocks: "makeBlocks P i j k = Some (Blocks (sec i j k))"
      unfolding sec_def by (simp add: makeBlocks_eq [OF l0 r lv])
    have idx: "i * ys * zs + j * zs + k = (i * ys + j) * zs + k"
      by (simp add: algebra_simps)
    have lt: "(i * ys + j) * zs + k < xs * ys * zs"
      using g by (intro grid_index_less)
    from inv have lent: "length t = xs * ys * zs" by (simp add: Inv_def)
    have "\<lparr>X = int i * 16, Y = int j * 16, Z = int k * 16, Blocks = Blocks (sec i j k)\<rparr> = sec i j k"
      by (simp add: sec_def)
    with lt lent blocks have body: "?bodyJ i k j t = Some (t[(i * ys + j) * zs + k := sec i j k])"
      by (simp add: idx assign_def)
    have "Inv (Suc ((i * zs + k) * ys + j)) (t[(i * ys + j) * zs + k := sec i j k])"
      unfolding Inv_def
    proof (intro conjI allI impI)
      show "length (t[(i * ys + j) * zs + k := sec i j k]) = xs * ys * zs"
        using inv by (simp add: Inv_def)
    next
      fix i' j' k'
      assume a: "i' < xs \<and> j' < ys \<and> k' < zs \<and> (i' * zs + k') * ys + j' < Suc ((i * zs + k) * ys + j)"
      show "t[(i * ys + j) * zs + k := sec i j k] ! ((i' * ys + j') * zs + k') = sec i' j' k'"
      proof (cases "(i' * zs + k') * ys + j' = (i * zs + k) * ys + j")
        case True
        with a g have "i' = i \<and> k' = k \<and> j' = j"
          by (intro grid_index_inj [where ny = zs and nz = ys]) auto
        with lt lent show ?thesis by simp
      next
        case False
        with a have old: "t ! ((i' * ys + j') * zs + k') = sec i' j' k'"
          using inv by (simp add: Inv_def)
        have "(i' * ys + j') * zs + k' \<noteq> (i * ys + j) * zs + k"
        proof
          assume "(i' * ys + j') * zs + k' = (i * ys + j) * zs + k"
          with a g have "i' = i \<and> j' = j \<and> k' = k"
            by (intro grid_index_inj [where ny = ys and nz = zs]) auto
          with False show False by simp
        qed
        with old show ?thesis by simp
      qed
    qed
    with body show ?thesis by blast
  qed
  have loopJ: "\<exists>t'. ?bodyK i k t = Some t' \<and> Inv ((i * zs + Suc k) * ys) t'"
    if "i < xs" "k < zs" and inv: "Inv ((i * zs + k) * ys) t" for i k t
  proof -
    let ?I = "\<lambda>c t. Inv ((i * zs + k) * ys + c) t"
    have init: "?I 0 t" using inv by simp
    have step: "\<exists>t'. ?bodyJ i k c t = Some t' \<and> ?I (Suc c) t'" if "c < ys" "?I c t" for c t
      using stepJ [OF \<open>i < xs\<close> \<open>k < zs\<close> that] by simp
    have "\<exists>t'. forUpto ys (?bodyJ i k) t = Some t' \<and> ?I ys t'"
      by (rule forUpto_rule [where I = ?I and body = "?bodyJ i k", OF init step])
    then show ?thesis by (simp add: algebra_simps)
  qed
  have loopK: "\<exists>t'. ?bodyI i t = Some t' \<and> Inv ((Suc i * zs + 0) * ys) t'"
    if "i < xs" and inv: "Inv ((i * zs + 0) * ys) t" for i t
  proof -
    let ?I = "\<lambda>c t. Inv ((i * zs + c) * ys) t"
    have init: "?I 0 t" using inv by simp
    have step: "\<exists>t'. ?bodyK i c t = Some t' \<and> ?I (Suc c) t'" if "c < zs" "?I c t" for c t
      using loopJ [OF \<open>i < xs\<close> that] by simp
    have "\<exists>t'. forUpto zs (?bodyK i) t = Some t' \<and> ?I zs t'"
      by (rule forUpto_rule [where I = ?I and body = "?bodyK i", OF init step])
    then show ?thesis by (simp add: algebra_simps)
  qed
  let ?s0 = "replicate (xs * ys * zs) \<lparr>X = 0, Y = 0, Z = 0, Blocks = [] :: volume\<rparr>"
  have "\<exists>t'. forUpto xs ?bodyI ?s0 = Some t' \<and> Inv ((xs * zs + 0) * ys) t'"
  proof -
    let ?I = "\<lambda>c t. Inv ((c * zs + 0) * ys) t"
    have init: "?I 0 ?s0" by (simp add: Inv_def)
    have step: "\<exists>t'. ?bodyI c t = Some t' \<and> ?I (Suc c) t'" if "c < xs" "?I c t" for c t
      using loopK [OF that] by simp
    show ?thesis
      by (rule forUpto_rule [where I = ?I and body = ?bodyI, OF init step])
  qed
  then obtain secs where secs: "forUpto xs ?bodyI ?s0 = Some secs" "Inv ((xs * zs + 0) * ys) secs"
    by blast
  from pos len rows [of 0] have "index P 0 = Some (P ! 0)" "index (P ! 0) 0 = Some (P ! 0 ! 0)"
    by (simp_all add: index_def)
  with pos len rows [of 0] leaves [of 0 0]
  have "convertToSections P = forUpto xs ?bodyI ?s0"
    by (simp add: convertToSections_def Let_def xs_def ys_def zs_def)
  moreover have "secs ! ((i * ys + j) * zs + k) = sec i j k" if "i < xs" "j < ys" "k < zs" for i j k
  proof -
    have "(i * zs + k) * ys + j < xs * zs * ys"
      using that by (intro grid_index_less)
    with secs(2) that show ?thesis by (simp add: Inv_def)
  qed
  ultimately show ?thesis using secs by (auto simp: Inv_def)
qed

lemma grid_index_surj:
  fixes n :: nat
  assumes "n < nx * ny * nz"
  shows "\<exists>x y z. x < nx \<and> y < ny \<and> z < nz \<and> n = (x * ny + y) * nz + z"
proof -
  from assms have nz: "0 < nz"
    by (cases nz) simp_all
  from assms have ny: "0 < ny"
    by (cases ny) simp_all
  let ?z = "n mod nz" and ?y = "(n div nz) mod ny" and ?x = "n div nz div ny"
  from assms have "n div nz < nx * ny"
    by (rule less_mult_imp_div_less)
  then have "?x < nx"
    by (rule less_mult_imp_div_less)
  moreover have "?y < ny" using ny by simp
  moreover have "?z < nz" using nz by simp
  moreover have "n = (?x * ny + ?y) * nz + ?z" by simp
  ultimately show ?thesis by blast
qed

lemma origins_distinct:
  fixes secs :: "'b Section list"
  assumes len: "length secs = nx * ny * nz"
    and org: "\<And>x y z. x < nx \<Longrightarrow> y < ny \<Longrightarrow> z < nz \<Longrightarrow>
      X (secs ! ((x * ny + y) * nz + z)) = int x * 16 \<and>
      Y (secs ! ((x * ny + y) * nz + z)) = int y * 16 \<and>
      Z (secs ! ((x * ny + y) * nz + z)) = int z * 16"
  shows "distinct (map (\<lambda>s. (X s, Y s, Z s)) secs)"
proof -
  have "n = m" if n: "n < length secs" and m: "m < length secs"
    and eq: "(X (secs ! n), Y (secs ! n), Z (secs ! n)) = (X (secs ! m), Y (secs ! m), Z (secs ! m))"
    for n m
  proof -
    from n len obtain x y z where n': "x < nx" "y < ny" "z < nz" "n = (x * ny + y) * nz + z"
      using grid_index_surj [of n nx ny nz] by auto
    from m len obtain x' y' z' where m': "x' < nx" "y' < ny" "z' < nz" "m = (x' * ny + y') * nz + z'"
      using grid_index_surj [of m nx ny nz] by auto
    from org [OF n'(1-3)] have a: "X (secs ! n) = int x * 16" "Y (secs ! n) = int y * 16" "Z (secs ! n) = int z * 16"
      unfolding n'(4) by simp_all
    from org [OF m'(1-3)] have b: "X (secs ! m) = int x' * 16" "Y (secs ! m) = int y' * 16" "Z (secs ! m) = int z' * 16"
      unfolding m'(4) by simp_all
    from eq a b have "x = x'" "y = y'" "z = z'" by simp_all
    with n'(4) m'(4) show ?thesis by simp
  qed
  then have "\<And>n m. n < length secs \<Longrightarrow> m < length secs \<Longrightarrow> n \<noteq> m \<Longrightarrow>
      (X (secs ! n), Y (secs ! n), Z (secs ! n)) \<noteq> (X (secs ! m), Y (secs ! m), Z (secs ! m))"
    by blast
  then show ?thesis
    by (simp add: distinct_conv_nth)
qed

lemma div16_less: "16 dvd n \<Longrightarrow> a < n \<Longrightarrow> a div 16 < n div (16 :: nat)"
  by (auto simp: dvd_def)


text \<open>
  C1. Let \<open>P\<close> be a dense volume with \<open>nx\<close> first-level rows, each of \<open>ny\<close> leaves,
  each leaf of length \<open>nz\<close>, the three extents multiples of 16 and \<open>P[0]\<close> and
  \<open>P[0][0]\<close> existing (\<open>nx\<close> and \<open>ny\<close> are not 0; \<open>nz\<close> may be). Then
  \<^verbatim>\<open>convertToSections\<close> returns exactly \<open>(nx/16) * (ny/16) * (nz/16)\<close> sections,
  the \<^verbatim>\<open>Blocks\<close> of each a 16x16x16 array. For every coordinate \<open>(a, b, c)\<close> of
  \<open>P\<close>, exactly one section of the result has the origin
  \<open>(16 * (a div 16), 16 * (b div 16), 16 * (c div 16))\<close>; it is the section at index
  \<open>((a div 16) * (ny/16) + b div 16) * (nz/16) + c div 16\<close>, and it holds \<open>P[a][b][c]\<close> at
  the local position \<open>(a mod 16, b mod 16, c mod 16)\<close>. Every volume that
  \<^verbatim>\<open>padArray\<close> returns meets these conditions (lemma \<open>padArray_shape\<close>).
\<close>

theorem dense_sections_partition:
  fixes P :: volume
  assumes len: "length P = nx"
    and rect: "\<forall>plane\<in>set P. length plane = ny \<and> (\<forall>row\<in>set plane. length row = nz)"
    and mult: "16 dvd nx" "16 dvd ny" "16 dvd nz"
    and pos: "0 < nx" "0 < ny"
  shows "\<exists>sections. convertToSections P = Some sections \<and>
           length sections = (nx div 16) * (ny div 16) * (nz div 16) \<and>
           (\<forall>s\<in>set sections. length (Blocks s) = 16 \<and>
              (\<forall>plane\<in>set (Blocks s). length plane = 16 \<and> (\<forall>row\<in>set plane. length row = 16))) \<and>
           (\<forall>a b c. a < nx \<and> b < ny \<and> c < nz \<longrightarrow>
              (\<exists>!n. n < length sections \<and>
                 X (sections ! n) = 16 * int (a div 16) \<and>
                 Y (sections ! n) = 16 * int (b div 16) \<and>
                 Z (sections ! n) = 16 * int (c div 16)) \<and>
              X (sections ! ((a div 16 * (ny div 16) + b div 16) * (nz div 16) + c div 16)) = 16 * int (a div 16) \<and>
              Y (sections ! ((a div 16 * (ny div 16) + b div 16) * (nz div 16) + c div 16)) = 16 * int (b div 16) \<and>
              Z (sections ! ((a div 16 * (ny div 16) + b div 16) * (nz div 16) + c div 16)) = 16 * int (c div 16) \<and>
              Blocks (sections ! ((a div 16 * (ny div 16) + b div 16) * (nz div 16) + c div 16))
                ! (a mod 16) ! (b mod 16) ! (c mod 16) = P ! a ! b ! c)"
proof -
  let ?xs = "nx div 16" and ?ys = "ny div 16" and ?zs = "nz div 16"
  let ?blk = "\<lambda>i j k. map (\<lambda>l. map (\<lambda>m. map (\<lambda>q. P ! (i * 16 + l) ! (j * 16 + m) ! (k * 16 + q)) [0..<16])
                   [0..<16]) [0..<16]"
  let ?sec = "\<lambda>i j k. \<lparr>X = int i * 16, Y = int j * 16, Z = int k * 16, Blocks = ?blk i j k\<rparr>"
  have rows: "length (P ! i) = ny" if "i < nx" for i
    using rect len that by (simp add: nth_mem)
  have leaves: "length (P ! i ! j) = nz" if "i < nx" "j < ny" for i j
  proof -
    from that len have "P ! i \<in> set P" by (simp add: nth_mem)
    moreover from that rows have "P ! i ! j \<in> set (P ! i)" by (simp add: nth_mem)
    ultimately show ?thesis using rect by blast
  qed
  from convertToSections_grid [of P nx ny nz, OF len rows leaves pos]
  obtain secs where ret: "convertToSections P = Some secs"
    and lsecs: "length secs = ?xs * ?ys * ?zs"
    and at: "\<And>i j k. i < ?xs \<Longrightarrow> j < ?ys \<Longrightarrow> k < ?zs \<Longrightarrow> secs ! ((i * ?ys + j) * ?zs + k) = ?sec i j k"
    by blast
  have shape: "length (Blocks s) = 16 \<and>
      (\<forall>plane\<in>set (Blocks s). length plane = 16 \<and> (\<forall>row\<in>set plane. length row = 16))"
    if "s \<in> set secs" for s
  proof -
    from that obtain n where n: "n < length secs" "s = secs ! n"
      by (auto simp: in_set_conv_nth)
    from n(1) lsecs obtain i j k where g: "i < ?xs" "j < ?ys" "k < ?zs" "n = (i * ?ys + j) * ?zs + k"
      using grid_index_surj [of n ?xs ?ys ?zs] by auto
    from at [OF g(1-3)] n(2) g(4) have "Blocks s = ?blk i j k" by simp
    then show ?thesis by auto
  qed
  have cell: "(\<exists>!n. n < length secs \<and>
                 X (secs ! n) = 16 * int (a div 16) \<and>
                 Y (secs ! n) = 16 * int (b div 16) \<and>
                 Z (secs ! n) = 16 * int (c div 16)) \<and>
              X (secs ! ((a div 16 * ?ys + b div 16) * ?zs + c div 16)) = 16 * int (a div 16) \<and>
              Y (secs ! ((a div 16 * ?ys + b div 16) * ?zs + c div 16)) = 16 * int (b div 16) \<and>
              Z (secs ! ((a div 16 * ?ys + b div 16) * ?zs + c div 16)) = 16 * int (c div 16) \<and>
              Blocks (secs ! ((a div 16 * ?ys + b div 16) * ?zs + c div 16))
                ! (a mod 16) ! (b mod 16) ! (c mod 16) = P ! a ! b ! c"
    if abc: "a < nx" "b < ny" "c < nz" for a b c
  proof -
    let ?i = "a div 16" and ?j = "b div 16" and ?k = "c div 16"
    let ?n = "(?i * ?ys + ?j) * ?zs + ?k"
    from abc mult have g: "?i < ?xs" "?j < ?ys" "?k < ?zs"
      by (simp_all add: div16_less)
    have sn: "secs ! ?n = ?sec ?i ?j ?k" by (rule at [OF g])
    have nlt: "?n < length secs"
      unfolding lsecs using g by (rule grid_index_less)
    have org: "X (secs ! ?n) = 16 * int ?i" "Y (secs ! ?n) = 16 * int ?j" "Z (secs ! ?n) = 16 * int ?k"
      unfolding sn by simp_all
    have "Blocks (secs ! ?n) ! (a mod 16) ! (b mod 16) ! (c mod 16) =
        P ! (?i * 16 + a mod 16) ! (?j * 16 + b mod 16) ! (?k * 16 + c mod 16)"
      unfolding sn by simp
    then have val: "Blocks (secs ! ?n) ! (a mod 16) ! (b mod 16) ! (c mod 16) = P ! a ! b ! c"
      by simp
    have uniq: "m = ?n" if m: "m < length secs" "X (secs ! m) = 16 * int ?i"
      "Y (secs ! m) = 16 * int ?j" "Z (secs ! m) = 16 * int ?k" for m
    proof -
      from m(1) lsecs obtain i j k where h: "i < ?xs" "j < ?ys" "k < ?zs" "m = (i * ?ys + j) * ?zs + k"
        using grid_index_surj [of m ?xs ?ys ?zs] by auto
      have "secs ! m = ?sec i j k" unfolding h(4) by (rule at [OF h(1-3)])
      with m(2-4) have "i = ?i" "j = ?j" "k = ?k" by simp_all
      with h(4) show ?thesis by simp
    qed
    have "\<exists>!n. n < length secs \<and>
                 X (secs ! n) = 16 * int ?i \<and> Y (secs ! n) = 16 * int ?j \<and> Z (secs ! n) = 16 * int ?k"
    proof (rule ex1I [of _ ?n])
      show "?n < length secs \<and> X (secs ! ?n) = 16 * int ?i \<and> Y (secs ! ?n) = 16 * int ?j \<and>
          Z (secs ! ?n) = 16 * int ?k"
        using nlt org by simp
    next
      fix m
      assume "m < length secs \<and> X (secs ! m) = 16 * int ?i \<and> Y (secs ! m) = 16 * int ?j \<and>
          Z (secs ! m) = 16 * int ?k"
      then show "m = ?n" using uniq by blast
    qed
    with org val show ?thesis by blast
  qed
  show ?thesis
  proof (intro exI [of _ secs] conjI ballI allI impI)
    show "convertToSections P = Some secs" by (rule ret)
    show "length secs = ?xs * ?ys * ?zs" by (rule lsecs)
  qed (use shape cell in blast)+
qed

theorem dense_sections_partition_witness:
  "\<exists>sections. convertToSections (replicate 16 (replicate 16 (map int [0..<32]))) = Some sections \<and>
     length sections = 2 \<and>
     X (sections ! 1) = 0 \<and> Y (sections ! 1) = 0 \<and> Z (sections ! 1) = 16 \<and>
     Blocks (sections ! 1) ! 2 ! 5 ! 3 = 19"
proof -
  let ?P = "replicate 16 (replicate 16 (map int [0..<32]))"
  have h: "length ?P = 16"
    "\<forall>plane\<in>set ?P. length plane = 16 \<and> (\<forall>row\<in>set plane. length row = 32)"
    "(16 :: nat) dvd 16" "(16 :: nat) dvd 16" "(16 :: nat) dvd 32" "(0 :: nat) < 16" "(0 :: nat) < 16"
    by simp_all
  from dense_sections_partition [OF h]
  obtain secs where ret: "convertToSections ?P = Some secs" "length secs = 16 div 16 * (16 div 16) * (32 div 16)"
    and cell: "\<And>a b c. a < 16 \<and> b < 16 \<and> c < 32 \<Longrightarrow>
      X (secs ! ((a div 16 * (16 div 16) + b div 16) * (32 div 16) + c div 16)) = 16 * int (a div 16) \<and>
      Y (secs ! ((a div 16 * (16 div 16) + b div 16) * (32 div 16) + c div 16)) = 16 * int (b div 16) \<and>
      Z (secs ! ((a div 16 * (16 div 16) + b div 16) * (32 div 16) + c div 16)) = 16 * int (c div 16) \<and>
      Blocks (secs ! ((a div 16 * (16 div 16) + b div 16) * (32 div 16) + c div 16))
        ! (a mod 16) ! (b mod 16) ! (c mod 16) = ?P ! a ! b ! c"
    by blast
  from cell [of 2 5 19] ret show ?thesis by simp
qed

subsection \<open>The order of the sections\<close>

text \<open>
  A loop rule for a loop that is known to have returned, and with it the origins of the
  sections of the dense converter on any input on which it returns.
\<close>

lemma forUpto_partial:
  assumes "forUpto n body s = Some t" and "I 0 s"
    and "\<And>k u u'. k < n \<Longrightarrow> I k u \<Longrightarrow> body k u = Some u' \<Longrightarrow> I (Suc k) u'"
  shows "I n t"
  using assms(1,3)
proof (induction n arbitrary: t)
  case 0
  with assms(2) show ?case by (simp add: forUpto_0)
next
  case (Suc n)
  from Suc.prems(1) obtain u where u: "forUpto n body s = Some u" "body n u = Some t"
    by (auto simp: forUpto_Suc split: option.splits)
  have "I n u"
    by (rule Suc.IH [OF u(1)]) (rule Suc.prems(2), simp_all)
  then show ?case using u(2) by (intro Suc.prems(2) [of n u t]) simp_all
qed

lemma convertToSections_origins:
  fixes P :: volume
  assumes ret: "convertToSections P = Some secs"
  defines "xs \<equiv> length P div 16" and "ys \<equiv> length (P ! 0) div 16" and "zs \<equiv> length (P ! 0 ! 0) div 16"
  shows "length secs = xs * ys * zs \<and>
         (\<forall>i j k. i < xs \<and> j < ys \<and> k < zs \<longrightarrow>
            X (secs ! ((i * ys + j) * zs + k)) = int i * 16 \<and>
            Y (secs ! ((i * ys + j) * zs + k)) = int j * 16 \<and>
            Z (secs ! ((i * ys + j) * zs + k)) = int k * 16)"
proof -
  define Inv where "Inv c t \<longleftrightarrow> length t = xs * ys * zs \<and>
      (\<forall>i j k. i < xs \<and> j < ys \<and> k < zs \<and> (i * zs + k) * ys + j < c \<longrightarrow>
         X (t ! ((i * ys + j) * zs + k)) = int i * 16 \<and>
         Y (t ! ((i * ys + j) * zs + k)) = int j * 16 \<and>
         Z (t ! ((i * ys + j) * zs + k)) = int k * 16)"
    for c and t :: "volume Section list"
  let ?bodyJ = "\<lambda>i k j sections. do {
           blocks \<leftarrow> makeBlocks P i j k;
           assign sections (i * ys * zs + j * zs + k)
             \<lparr>X = int i * 16, Y = int j * 16, Z = int k * 16, Blocks = blocks\<rparr>
         }"
  let ?bodyK = "\<lambda>i k sections. forUpto ys (?bodyJ i k) sections"
  let ?bodyI = "\<lambda>i sections. forUpto zs (?bodyK i) sections"
  have stepJ: "Inv (Suc ((i * zs + k) * ys + j)) t'"
    if g: "i < xs" "k < zs" "j < ys" and inv: "Inv ((i * zs + k) * ys + j) t"
      and body: "?bodyJ i k j t = Some t'" for i k j t t'
  proof -
    have idx: "i * ys * zs + j * zs + k = (i * ys + j) * zs + k"
      by (simp add: algebra_simps)
    from inv have lent: "length t = xs * ys * zs" by (simp add: Inv_def)
    from body obtain blocks where
      t': "t' = t[(i * ys + j) * zs + k := \<lparr>X = int i * 16, Y = int j * 16, Z = int k * 16, Blocks = blocks\<rparr>]"
      and lt: "(i * ys + j) * zs + k < length t"
      unfolding idx by (auto simp: bind_eq_Some_conv assign_def split: if_splits)
    show ?thesis
      unfolding Inv_def
    proof (rule conjI, goal_cases)
      case 1
      show ?case using lent t' by simp
    next
      case 2
      show ?case
      proof (intro allI impI)
      fix i' j' k'
      assume a: "i' < xs \<and> j' < ys \<and> k' < zs \<and> (i' * zs + k') * ys + j' < Suc ((i * zs + k) * ys + j)"
      show "X (t' ! ((i' * ys + j') * zs + k')) = int i' * 16 \<and>
            Y (t' ! ((i' * ys + j') * zs + k')) = int j' * 16 \<and>
            Z (t' ! ((i' * ys + j') * zs + k')) = int k' * 16"
      proof (cases "(i' * zs + k') * ys + j' = (i * zs + k) * ys + j")
        case True
        with a g have "i' = i \<and> k' = k \<and> j' = j"
          by (intro grid_index_inj [where ny = zs and nz = ys]) auto
        with lt t' show ?thesis by simp
      next
        case False
        with a inv have old: "X (t ! ((i' * ys + j') * zs + k')) = int i' * 16 \<and>
            Y (t ! ((i' * ys + j') * zs + k')) = int j' * 16 \<and>
            Z (t ! ((i' * ys + j') * zs + k')) = int k' * 16"
          by (simp add: Inv_def)
        have "(i' * ys + j') * zs + k' \<noteq> (i * ys + j) * zs + k"
        proof
          assume "(i' * ys + j') * zs + k' = (i * ys + j) * zs + k"
          with a g have "i' = i \<and> j' = j \<and> k' = k"
            by (intro grid_index_inj [where ny = ys and nz = zs]) auto
          with False show False by simp
        qed
        with old t' show ?thesis by simp
      qed
      qed
    qed
  qed
  have loopJ: "Inv ((i * zs + Suc k) * ys) t'"
    if "i < xs" "k < zs" and inv: "Inv ((i * zs + k) * ys) t" and body: "?bodyK i k t = Some t'" for i k t t'
  proof -
    let ?I = "\<lambda>c t. Inv ((i * zs + k) * ys + c) t"
    have init: "?I 0 t" using inv by simp
    have step: "?I (Suc c) u'" if "c < ys" "?I c u" "?bodyJ i k c u = Some u'" for c u u'
      using stepJ [OF \<open>i < xs\<close> \<open>k < zs\<close> that] by simp
    have "?I ys t'"
      by (rule forUpto_partial [where I = ?I and body = "?bodyJ i k", OF body init step])
    then show ?thesis by (simp add: algebra_simps)
  qed
  have loopK: "Inv ((Suc i * zs + 0) * ys) t'"
    if "i < xs" and inv: "Inv ((i * zs + 0) * ys) t" and body: "?bodyI i t = Some t'" for i t t'
  proof -
    let ?I = "\<lambda>c t. Inv ((i * zs + c) * ys) t"
    have init: "?I 0 t" using inv by simp
    have step: "?I (Suc c) u'" if "c < zs" "?I c u" "?bodyK i c u = Some u'" for c u u'
      using loopJ [OF \<open>i < xs\<close> that] by simp
    have "?I zs t'"
      by (rule forUpto_partial [where I = ?I and body = "?bodyK i", OF body init step])
    then show ?thesis by (simp add: algebra_simps)
  qed
  let ?s0 = "replicate (xs * ys * zs) \<lparr>X = 0, Y = 0, Z = 0, Blocks = [] :: volume\<rparr>"
  from ret have run: "forUpto xs ?bodyI ?s0 = Some secs"
    by (auto simp: convertToSections_def Let_def index_def xs_def ys_def zs_def bind_eq_Some_conv
        split: if_splits)
  have "Inv ((xs * zs + 0) * ys) secs"
  proof -
    let ?I = "\<lambda>c t. Inv ((c * zs + 0) * ys) t"
    have init: "?I 0 ?s0" by (simp add: Inv_def)
    have step: "?I (Suc c) u'" if "c < xs" "?I c u" "?bodyI c u = Some u'" for c u u'
      using loopK [OF that] by simp
    show ?thesis
      by (rule forUpto_partial [where I = ?I and body = ?bodyI, OF run init step])
  qed
  moreover have "(i * zs + k) * ys + j < (xs * zs + 0) * ys" if "i < xs" "j < ys" "k < zs" for i j k
    using grid_index_less [of i xs k zs j ys] that by simp
  ultimately show ?thesis by (simp add: Inv_def)
qed

lemma forInt_partial:
  assumes "forInt n body s = Some t" and "I 0 s"
    and "\<And>k u u'. k < nat n \<Longrightarrow> I k u \<Longrightarrow> body (int k) u = Some u' \<Longrightarrow> I (Suc k) u'"
  shows "I (nat n) t"
  by (rule forUpto_partial [where I = I and body = "\<lambda>k. body (int k)",
        OF assms(1) [unfolded forInt_forUpto] assms(2,3)])

text \<open>
  The origins of the sections of the structure sectionizer, whenever it returns: no
  condition on the sizes or the buffer is needed, since the coordinates \<open>x * 16\<close> of a
  grid position stay below \<open>2^63\<close>.
\<close>

lemma makeSections_origins:
  fixes sz :: Size
  assumes ret: "makeSections sz blocks oor = Some secs"
  defines "nx \<equiv> nat (int64 (sizeX sz + 15) sdiv 16)"
    and "ny \<equiv> nat (int64 (sizeY sz + 15) sdiv 16)"
    and "nz \<equiv> nat (int64 (sizeZ sz + 15) sdiv 16)"
  shows "length secs = nx * ny * nz \<and>
         (\<forall>x y z. x < nx \<and> y < ny \<and> z < nz \<longrightarrow>
            X (secs ! ((x * ny + y) * nz + z)) = int x * 16 \<and>
            Y (secs ! ((x * ny + y) * nz + z)) = int y * 16 \<and>
            Z (secs ! ((x * ny + y) * nz + z)) = int z * 16)"
proof -
  define Inv where "Inv c t \<longleftrightarrow> length t = c \<and>
      (\<forall>x y z. x < nx \<and> y < ny \<and> z < nz \<and> (x * ny + y) * nz + z < c \<longrightarrow>
         X (t ! ((x * ny + y) * nz + z)) = int x * 16 \<and>
         Y (t ! ((x * ny + y) * nz + z)) = int y * 16 \<and>
         Z (t ! ((x * ny + y) * nz + z)) = int z * 16)"
    for c and t :: "int list Section list"
  let ?bodyZ = "\<lambda>x y z sections. do {
               let offset = sectionOffset sz x y z;
               sectionBlocks \<leftarrow> fillSection blocks offset oor;
               Some (sections @ [\<lparr>X = int64 (x * 16), Y = int64 (y * 16), Z = int64 (z * 16),
                                 Blocks = sectionBlocks\<rparr>])
             }"
  let ?bodyY = "\<lambda>x y sections. forInt (int64 (sizeZ sz + 15) sdiv 16) (?bodyZ x y) sections"
  let ?bodyX = "\<lambda>x sections. forInt (int64 (sizeY sz + 15) sdiv 16) (?bodyY x) sections"
  have stepZ: "Inv (Suc ((x * ny + y) * nz + z)) t'"
    if g: "x < nx" "y < ny" "z < nz" and inv: "Inv ((x * ny + y) * nz + z) t"
      and body: "?bodyZ (int x) (int y) (int z) t = Some t'" for x y z t t'
  proof -
    from g have cnt: "int x < int64 (sizeX sz + 15) sdiv 16" "int y < int64 (sizeY sz + 15) sdiv 16"
      "int z < int64 (sizeZ sz + 15) sdiv 16"
      by (simp_all add: nx_def ny_def nz_def)
    have co: "int64 (int x * 16) = int x * 16" "int64 (int y * 16) = int y * 16"
      "int64 (int z * 16) = int z * 16"
      using cnt by (simp_all add: coordinate64)
    from inv have lent: "length t = (x * ny + y) * nz + z" by (simp add: Inv_def)
    from body obtain sb where
      t': "t' = t @ [\<lparr>X = int x * 16, Y = int y * 16, Z = int z * 16, Blocks = sb\<rparr>]"
      by (auto simp: bind_eq_Some_conv co)
    show ?thesis
      unfolding Inv_def
    proof (rule conjI, goal_cases)
      case 1
      show ?case using lent t' by simp
    next
      case 2
      show ?case
      proof (intro allI impI)
        fix x' y' z'
        assume a: "x' < nx \<and> y' < ny \<and> z' < nz \<and> (x' * ny + y') * nz + z' < Suc ((x * ny + y) * nz + z)"
        show "X (t' ! ((x' * ny + y') * nz + z')) = int x' * 16 \<and>
            Y (t' ! ((x' * ny + y') * nz + z')) = int y' * 16 \<and>
            Z (t' ! ((x' * ny + y') * nz + z')) = int z' * 16"
        proof (cases "(x' * ny + y') * nz + z' < (x * ny + y) * nz + z")
          case True
          with a inv t' lent show ?thesis by (simp add: Inv_def nth_append)
        next
          case False
          with a have eq: "(x' * ny + y') * nz + z' = (x * ny + y) * nz + z" by simp
          with a g have "x' = x \<and> y' = y \<and> z' = z"
            by (intro grid_index_inj [where ny = ny and nz = nz]) auto
          with eq lent t' show ?thesis by (simp add: nth_append)
        qed
      qed
    qed
  qed
  have loopZ: "Inv ((x * ny + Suc y) * nz) t'"
    if "x < nx" "y < ny" and inv: "Inv ((x * ny + y) * nz) t" and body: "?bodyY (int x) (int y) t = Some t'"
    for x y t t'
  proof -
    let ?I = "\<lambda>c t. Inv ((x * ny + y) * nz + c) t"
    have init: "?I 0 t" using inv by simp
    have step: "?I (Suc c) u'"
      if "c < nat (int64 (sizeZ sz + 15) sdiv 16)" "?I c u" "?bodyZ (int x) (int y) (int c) u = Some u'"
      for c u u'
      using stepZ [OF \<open>x < nx\<close> \<open>y < ny\<close> _ that(2,3)] that(1) by (simp add: nz_def)
    have "?I (nat (int64 (sizeZ sz + 15) sdiv 16)) t'"
      by (rule forInt_partial [where I = ?I and body = "?bodyZ (int x) (int y)", OF body init step])
    then show ?thesis by (simp add: nz_def algebra_simps)
  qed
  have loopY: "Inv ((Suc x * ny + 0) * nz) t'"
    if "x < nx" and inv: "Inv ((x * ny + 0) * nz) t" and body: "?bodyX (int x) t = Some t'" for x t t'
  proof -
    let ?I = "\<lambda>c t. Inv ((x * ny + c) * nz) t"
    have init: "?I 0 t" using inv by simp
    have step: "?I (Suc c) u'"
      if "c < nat (int64 (sizeY sz + 15) sdiv 16)" "?I c u" "?bodyY (int x) (int c) u = Some u'" for c u u'
      using loopZ [OF \<open>x < nx\<close> _ that(2,3)] that(1) by (simp add: ny_def)
    have "?I (nat (int64 (sizeY sz + 15) sdiv 16)) t'"
      by (rule forInt_partial [where I = ?I and body = "?bodyY (int x)", OF body init step])
    then show ?thesis by (simp add: ny_def algebra_simps)
  qed
  from ret have run: "forInt (int64 (sizeX sz + 15) sdiv 16) ?bodyX [] = Some secs"
    by (simp add: makeSections_def Let_def)
  have "Inv ((nx * ny + 0) * nz) secs"
  proof -
    let ?I = "\<lambda>c t. Inv ((c * ny + 0) * nz) t"
    have init: "?I 0 []" by (simp add: Inv_def)
    have step: "?I (Suc c) u'"
      if "c < nat (int64 (sizeX sz + 15) sdiv 16)" "?I c u" "?bodyX (int c) u = Some u'" for c u u'
      using loopY [OF _ that(2,3)] that(1) by (simp add: nx_def)
    have "?I (nat (int64 (sizeX sz + 15) sdiv 16)) secs"
      by (rule forInt_partial [where I = ?I and body = ?bodyX, OF run init step])
    then show ?thesis by (simp add: nx_def)
  qed
  moreover have "(x * ny + y) * nz + z < (nx * ny + 0) * nz" if "x < nx" "y < ny" "z < nz" for x y z
    using grid_index_less [OF that] by simp
  ultimately show ?thesis by (simp add: Inv_def)
qed

text \<open>
  C8. Both converters return their sections in row-major order over the section grid
  (x-major, then y, then z), one section for each grid cell, with the coordinates
  \<open>grid index * 16\<close>, and no two sections share an origin: whenever a converter
  returns, on any input, the section of grid cell \<open>(x, y, z)\<close> stands at the index
  \<open>x * ny * nz + y * nz + z\<close> of the result, whose length is the number of grid cells.
  For the dense converter this holds although its loops run over \<open>k\<close> before \<open>j\<close>,
  because each section is stored at its row-major index; the structure converter appends
  in the order of its loops. The dense converter does return on every rectangular volume
  for which \<open>P[0]\<close> and \<open>P[0][0]\<close> exist, and the structure converter on every input
  whose indices are positions of the palette, whose sizes are values of \<^verbatim>\<open>int\<close>
  and whose offsets do not wrap.
\<close>

theorem sections_row_major:
  fixes P :: volume and inp :: inputMap
  defines "xs \<equiv> length P div 16" and "ys \<equiv> length (P ! 0) div 16" and "zs \<equiv> length (P ! 0 ! 0) div 16"
    and "cx \<equiv> nat (int64 (sizeX (size3 inp) + 15) sdiv 16)"
    and "cy \<equiv> nat (int64 (sizeY (size3 inp) + 15) sdiv 16)"
    and "cz \<equiv> nat (int64 (sizeZ (size3 inp) + 15) sdiv 16)"
  shows "(\<forall>sections. convertToSections P = Some sections \<longrightarrow>
            length sections = xs * ys * zs \<and>
            (\<forall>i j k. i < xs \<and> j < ys \<and> k < zs \<longrightarrow>
               i * ys * zs + j * zs + k < length sections \<and>
               X (sections ! (i * ys * zs + j * zs + k)) = int i * 16 \<and>
               Y (sections ! (i * ys * zs + j * zs + k)) = int j * 16 \<and>
               Z (sections ! (i * ys * zs + j * zs + k)) = int k * 16) \<and>
            distinct (map (\<lambda>s. (X s, Y s, Z s)) sections)) \<and>
         (P \<noteq> [] \<and> P ! 0 \<noteq> [] \<and>
          (\<forall>plane\<in>set P. length plane = length (P ! 0) \<and>
             (\<forall>row\<in>set plane. length row = length (P ! 0 ! 0))) \<longrightarrow>
            (\<exists>sections. convertToSections P = Some sections)) \<and>
         (\<forall>sections. convertToSections_structure inp blockDict defaultBlockId outOfRangeBlockId = Some sections \<longrightarrow>
            length sections = cx * cy * cz \<and>
            (\<forall>x y z. x < cx \<and> y < cy \<and> z < cz \<longrightarrow>
               x * cy * cz + y * cz + z < length sections \<and>
               X (sections ! (x * cy * cz + y * cz + z)) = int x * 16 \<and>
               Y (sections ! (x * cy * cz + y * cz + z)) = int y * 16 \<and>
               Z (sections ! (x * cy * cz + y * cz + z)) = int z * 16) \<and>
            distinct (map (\<lambda>s. (X s, Y s, Z s)) sections)) \<and>
         ((\<forall>i<length (block_indices inp).
              0 \<le> block_indices inp ! i \<and> block_indices inp ! i < int (length (block_palette inp))) \<and>
          - (2 ^ 63) \<le> sizeX (size3 inp) \<and> sizeX (size3 inp) < 2 ^ 63 \<and>
          - (2 ^ 63) \<le> sizeY (size3 inp) \<and> sizeY (size3 inp) < 2 ^ 63 \<and>
          - (2 ^ 63) \<le> sizeZ (size3 inp) \<and> sizeZ (size3 inp) < 2 ^ 63 \<and>
          (\<forall>x y z. x < cx \<and> y < cy \<and> z < cz \<longrightarrow>
             int x * 16 * sizeX (size3 inp) * sizeY (size3 inp) + int y * 16 * sizeX (size3 inp) +
               int z * 16 + 4095 < 2 ^ 63) \<longrightarrow>
            (\<exists>sections. convertToSections_structure inp blockDict defaultBlockId outOfRangeBlockId = Some sections))"
proof -
  have idx: "i * m * n + j * n + k = (i * m + j) * n + k" for i j k m n :: nat
    by (simp add: algebra_simps)
  have grid: "length secs = nx * ny * nz \<and>
      (\<forall>x y z. x < nx \<and> y < ny \<and> z < nz \<longrightarrow>
         x * ny * nz + y * nz + z < length secs \<and>
         X (secs ! (x * ny * nz + y * nz + z)) = int x * 16 \<and>
         Y (secs ! (x * ny * nz + y * nz + z)) = int y * 16 \<and>
         Z (secs ! (x * ny * nz + y * nz + z)) = int z * 16) \<and>
      distinct (map (\<lambda>s. (X s, Y s, Z s)) secs)"
    if lsecs: "length secs = nx * ny * nz"
      and at: "\<And>x y z. x < nx \<Longrightarrow> y < ny \<Longrightarrow> z < nz \<Longrightarrow>
        X (secs ! ((x * ny + y) * nz + z)) = int x * 16 \<and>
        Y (secs ! ((x * ny + y) * nz + z)) = int y * 16 \<and>
        Z (secs ! ((x * ny + y) * nz + z)) = int z * 16"
    for secs :: "'b Section list" and nx ny nz
  proof -
    have d: "distinct (map (\<lambda>s. (X s, Y s, Z s)) secs)"
      using lsecs at by (rule origins_distinct)
    have "x * ny * nz + y * nz + z < length secs \<and>
        X (secs ! (x * ny * nz + y * nz + z)) = int x * 16 \<and>
        Y (secs ! (x * ny * nz + y * nz + z)) = int y * 16 \<and>
        Z (secs ! (x * ny * nz + y * nz + z)) = int z * 16" if "x < nx" "y < ny" "z < nz" for x y z
      unfolding idx lsecs using at [OF that] grid_index_less [OF that] by simp
    with lsecs d show ?thesis by blast
  qed
  have dense: "length secs = xs * ys * zs \<and>
            (\<forall>i j k. i < xs \<and> j < ys \<and> k < zs \<longrightarrow>
               i * ys * zs + j * zs + k < length secs \<and>
               X (secs ! (i * ys * zs + j * zs + k)) = int i * 16 \<and>
               Y (secs ! (i * ys * zs + j * zs + k)) = int j * 16 \<and>
               Z (secs ! (i * ys * zs + j * zs + k)) = int k * 16) \<and>
            distinct (map (\<lambda>s. (X s, Y s, Z s)) secs)"
    if ret: "convertToSections P = Some secs" for secs
  proof -
    note o = convertToSections_origins [OF ret, folded xs_def ys_def zs_def]
    show ?thesis
      by (rule grid) (use o in blast)+
  qed
  have dense_ret: "\<exists>sections. convertToSections P = Some sections"
    if ne: "P \<noteq> []" "P ! 0 \<noteq> []"
      and rect: "\<forall>plane\<in>set P. length plane = length (P ! 0) \<and>
             (\<forall>row\<in>set plane. length row = length (P ! 0 ! 0))"
  proof -
    have rows: "length (P ! i) = length (P ! 0)" if "i < length P" for i
      using rect that by (simp add: nth_mem)
    have leaves: "length (P ! i ! j) = length (P ! 0 ! 0)" if "i < length P" "j < length (P ! 0)" for i j
    proof -
      from that have "P ! i \<in> set P" by (simp add: nth_mem)
      moreover from that rows have "P ! i ! j \<in> set (P ! i)" by (simp add: nth_mem)
      ultimately show ?thesis using rect by blast
    qed
    from ne have pos: "0 < length P" "0 < length (P ! 0)" by simp_all
    from convertToSections_grid [of P "length P" "length (P ! 0)" "length (P ! 0 ! 0)", OF refl rows leaves pos]
    show ?thesis by blast
  qed
  have struct: "length secs = cx * cy * cz \<and>
            (\<forall>x y z. x < cx \<and> y < cy \<and> z < cz \<longrightarrow>
               x * cy * cz + y * cz + z < length secs \<and>
               X (secs ! (x * cy * cz + y * cz + z)) = int x * 16 \<and>
               Y (secs ! (x * cy * cz + y * cz + z)) = int y * 16 \<and>
               Z (secs ! (x * cy * cz + y * cz + z)) = int z * 16) \<and>
            distinct (map (\<lambda>s. (X s, Y s, Z s)) secs)"
    if ret: "convertToSections_structure inp blockDict defaultBlockId outOfRangeBlockId = Some secs" for secs
  proof -
    from ret obtain blocks where mk: "makeSections (size3 inp) blocks outOfRangeBlockId = Some secs"
      by (auto simp: convertToSections_structure_def bind_eq_Some_conv)
    note o = makeSections_origins [OF mk, folded cx_def cy_def cz_def]
    from o have lsecs: "length secs = cx * cy * cz"
      and at: "\<And>x y z. x < cx \<Longrightarrow> y < cy \<Longrightarrow> z < cz \<Longrightarrow>
        X (secs ! ((x * cy + y) * cz + z)) = int x * 16 \<and>
        Y (secs ! ((x * cy + y) * cz + z)) = int y * 16 \<and>
        Z (secs ! ((x * cy + y) * cz + z)) = int z * 16"
      by blast+
    show ?thesis using lsecs at by (rule grid)
  qed
  have struct_ret: "\<exists>sections. convertToSections_structure inp blockDict defaultBlockId outOfRangeBlockId = Some sections"
    if valid: "\<forall>i<length (block_indices inp).
              0 \<le> block_indices inp ! i \<and> block_indices inp ! i < int (length (block_palette inp))"
      and T: "- (2 ^ 63) \<le> sizeX (size3 inp)" "sizeX (size3 inp) < 2 ^ 63"
        "- (2 ^ 63) \<le> sizeY (size3 inp)" "sizeY (size3 inp) < 2 ^ 63"
        "- (2 ^ 63) \<le> sizeZ (size3 inp)" "sizeZ (size3 inp) < 2 ^ 63"
      and R: "\<forall>x y z. x < cx \<and> y < cy \<and> z < cz \<longrightarrow>
             int x * 16 * sizeX (size3 inp) * sizeY (size3 inp) + int y * 16 * sizeX (size3 inp) +
               int z * 16 + 4095 < 2 ^ 63"
  proof -
    let ?B = "map (\<lambda>b. case blockDict (block_palette inp ! nat b) of Some v \<Rightarrow> v | None \<Rightarrow> defaultBlockId)
             (block_indices inp)"
    from valid have "resolveBlocks (block_palette inp) blockDict defaultBlockId (block_indices inp) = Some ?B"
      by (intro resolveBlocks_eq) simp
    moreover have "\<exists>secs. makeSections (size3 inp) ?B outOfRangeBlockId = Some secs"
      using makeSections_grid [of "size3 inp" ?B outOfRangeBlockId, OF T R [rule_format, unfolded cx_def cy_def cz_def]]
      by blast
    ultimately show ?thesis by (auto simp: convertToSections_structure_def)
  qed
  from dense dense_ret struct struct_ret show ?thesis by blast
qed



theorem sections_row_major_witness:
  "(\<exists>sections. convertToSections (replicate 32 (replicate 16 (replicate 48 0))) = Some sections \<and>
      length sections = 6 \<and>
      X (sections ! 5) = 16 \<and> Y (sections ! 5) = 0 \<and> Z (sections ! 5) = 32) \<and>
   (\<exists>sections. convertToSections_structure
        \<lparr>size3 = \<lparr>sizeX = 17, sizeY = 1, sizeZ = 33\<rparr>, block_indices = replicate 561 0,
         block_palette = [''minecraft:stone'']\<rparr> Map.empty DefaultBlockId OutOfRangeBlockId = Some sections \<and>
      length sections = 6 \<and>
      X (sections ! 5) = 16 \<and> Y (sections ! 5) = 0 \<and> Z (sections ! 5) = 32)"
proof -
  let ?P = "replicate 32 (replicate 16 (replicate 48 (0 :: int)))"
  let ?inp = "\<lparr>size3 = \<lparr>sizeX = 17, sizeY = 1, sizeZ = 33\<rparr>, block_indices = replicate 561 0,
         block_palette = [''minecraft:stone'']\<rparr>"
  have sd: "int64 32 sdiv 16 = 2" "int64 16 sdiv 16 = 1" "int64 48 sdiv 16 = 3"
    by (simp_all add: int64_def signed_divide_int_def)
  note t = sections_row_major [of ?P ?inp Map.empty DefaultBlockId OutOfRangeBlockId]
  have hP: "?P \<noteq> [] \<and> ?P ! 0 \<noteq> [] \<and>
      (\<forall>plane\<in>set ?P. length plane = length (?P ! 0) \<and> (\<forall>row\<in>set plane. length row = length (?P ! 0 ! 0)))"
    by simp
  from t hP obtain secs where ret: "convertToSections ?P = Some secs" by blast
  with t have "length secs = length ?P div 16 * (length (?P ! 0) div 16) * (length (?P ! 0 ! 0) div 16)"
    and "\<And>i j k. i < length ?P div 16 \<and> j < length (?P ! 0) div 16 \<and> k < length (?P ! 0 ! 0) div 16 \<Longrightarrow>
       X (secs ! (i * (length (?P ! 0) div 16) * (length (?P ! 0 ! 0) div 16) + j * (length (?P ! 0 ! 0) div 16) + k)) = int i * 16 \<and>
       Y (secs ! (i * (length (?P ! 0) div 16) * (length (?P ! 0 ! 0) div 16) + j * (length (?P ! 0 ! 0) div 16) + k)) = int j * 16 \<and>
       Z (secs ! (i * (length (?P ! 0) div 16) * (length (?P ! 0 ! 0) div 16) + j * (length (?P ! 0 ! 0) div 16) + k)) = int k * 16"
    by blast+
  then have l: "length secs = 6"
    and at: "\<And>i j k. i < 2 \<and> j < 1 \<and> k < 3 \<Longrightarrow>
       X (secs ! (i * 1 * 3 + j * 3 + k)) = int i * 16 \<and>
       Y (secs ! (i * 1 * 3 + j * 3 + k)) = int j * 16 \<and>
       Z (secs ! (i * 1 * 3 + j * 3 + k)) = int k * 16"
    by simp_all
  from at [of 1 0 2] ret l
  have dense: "\<exists>sections. convertToSections ?P = Some sections \<and> length sections = 6 \<and>
      X (sections ! 5) = 16 \<and> Y (sections ! 5) = 0 \<and> Z (sections ! 5) = 32"
    by simp
  have hR: "int x * 16 * sizeX (size3 ?inp) * sizeY (size3 ?inp) + int y * 16 * sizeX (size3 ?inp) +
               int z * 16 + 4095 < 2 ^ 63"
    if "x < nat (int64 (sizeX (size3 ?inp) + 15) sdiv 16) \<and> y < nat (int64 (sizeY (size3 ?inp) + 15) sdiv 16) \<and>
        z < nat (int64 (sizeZ (size3 ?inp) + 15) sdiv 16)" for x y z
  proof -
    from that have "int x \<le> 1" "int y \<le> 0" "int z \<le> 2" by (simp_all add: sd)
    then show ?thesis by simp
  qed
  have hI: "(\<forall>i<length (block_indices ?inp).
      0 \<le> block_indices ?inp ! i \<and> block_indices ?inp ! i < int (length (block_palette ?inp))) \<and>
          - (2 ^ 63) \<le> sizeX (size3 ?inp) \<and> sizeX (size3 ?inp) < 2 ^ 63 \<and>
          - (2 ^ 63) \<le> sizeY (size3 ?inp) \<and> sizeY (size3 ?inp) < 2 ^ 63 \<and>
          - (2 ^ 63) \<le> sizeZ (size3 ?inp) \<and> sizeZ (size3 ?inp) < 2 ^ 63 \<and>
          (\<forall>x y z. x < nat (int64 (sizeX (size3 ?inp) + 15) sdiv 16) \<and>
               y < nat (int64 (sizeY (size3 ?inp) + 15) sdiv 16) \<and>
               z < nat (int64 (sizeZ (size3 ?inp) + 15) sdiv 16) \<longrightarrow>
             int x * 16 * sizeX (size3 ?inp) * sizeY (size3 ?inp) + int y * 16 * sizeX (size3 ?inp) +
               int z * 16 + 4095 < 2 ^ 63)"
    using hR by simp
  from t hI obtain secs' where
    ret': "convertToSections_structure ?inp Map.empty DefaultBlockId OutOfRangeBlockId = Some secs'"
    by blast
  with t have "length secs' = nat (int64 (sizeX (size3 ?inp) + 15) sdiv 16) * nat (int64 (sizeY (size3 ?inp) + 15) sdiv 16) *
        nat (int64 (sizeZ (size3 ?inp) + 15) sdiv 16)"
    and "\<And>x y z. x < nat (int64 (sizeX (size3 ?inp) + 15) sdiv 16) \<and> y < nat (int64 (sizeY (size3 ?inp) + 15) sdiv 16) \<and>
          z < nat (int64 (sizeZ (size3 ?inp) + 15) sdiv 16) \<Longrightarrow>
       X (secs' ! (x * nat (int64 (sizeY (size3 ?inp) + 15) sdiv 16) * nat (int64 (sizeZ (size3 ?inp) + 15) sdiv 16) +
            y * nat (int64 (sizeZ (size3 ?inp) + 15) sdiv 16) + z)) = int x * 16 \<and>
       Y (secs' ! (x * nat (int64 (sizeY (size3 ?inp) + 15) sdiv 16) * nat (int64 (sizeZ (size3 ?inp) + 15) sdiv 16) +
            y * nat (int64 (sizeZ (size3 ?inp) + 15) sdiv 16) + z)) = int y * 16 \<and>
       Z (secs' ! (x * nat (int64 (sizeY (size3 ?inp) + 15) sdiv 16) * nat (int64 (sizeZ (size3 ?inp) + 15) sdiv 16) +
            y * nat (int64 (sizeZ (size3 ?inp) + 15) sdiv 16) + z)) = int z * 16"
    by blast+
  then have l': "length secs' = 6"
    and at': "\<And>x y z. x < 2 \<and> y < 1 \<and> z < 3 \<Longrightarrow>
       X (secs' ! (x * 1 * 3 + y * 3 + z)) = int x * 16 \<and>
       Y (secs' ! (x * 1 * 3 + y * 3 + z)) = int y * 16 \<and>
       Z (secs' ! (x * 1 * 3 + y * 3 + z)) = int z * 16"
    by (simp_all add: sd)
  from at' [of 1 0 2] ret' l'
  have "\<exists>sections. convertToSections_structure ?inp Map.empty DefaultBlockId OutOfRangeBlockId = Some sections \<and>
      length sections = 6 \<and>
      X (sections ! 5) = 16 \<and> Y (sections ! 5) = 0 \<and> Z (sections ! 5) = 32"
    by simp
  with dense show ?thesis by blast
qed

subsection \<open>What the dense validation decides\<close>

lemma adjacentLens_iff:
  "adjacentLens a i \<longleftrightarrow> (\<forall>j. i \<le> j \<and> j + 1 < length a \<longrightarrow> length (a ! j) = length (a ! (j + 1)))"
proof (induction a i rule: adjacentLens.induct)
  case (1 a i)
  show ?case
  proof (cases "int i < int (length a) - 1")
    case False
    then have "adjacentLens a i" by (simp add: adjacentLens.simps)
    moreover from False have "\<not> (i \<le> j \<and> j + 1 < length a)" for j by auto
    ultimately show ?thesis by blast
  next
    case True
    show ?thesis
    proof (cases "length (a ! i) = length (a ! (i + 1))")
      case False
      with True have "\<not> adjacentLens a i" by (simp add: adjacentLens.simps)
      moreover from True have "i \<le> i \<and> i + 1 < length a" by auto
      ultimately show ?thesis using False by blast
    next
      case eq: True
      with True have "adjacentLens a i = adjacentLens a (i + 1)"
        by (subst adjacentLens.simps) simp
      also have "\<dots> \<longleftrightarrow> (\<forall>j. i + 1 \<le> j \<and> j + 1 < length a \<longrightarrow> length (a ! j) = length (a ! (j + 1)))"
        using "1.IH" [OF True] eq by simp
      also have "\<dots> \<longleftrightarrow> (\<forall>j. i \<le> j \<and> j + 1 < length a \<longrightarrow> length (a ! j) = length (a ! (j + 1)))"
      proof (intro iffI allI impI)
        fix j
        assume h: "\<forall>j. i + 1 \<le> j \<and> j + 1 < length a \<longrightarrow> length (a ! j) = length (a ! (j + 1))"
          and j: "i \<le> j \<and> j + 1 < length a"
        show "length (a ! j) = length (a ! (j + 1))"
        proof (cases "j = i")
          case True
          with eq show ?thesis by simp
        next
          case False
          with j have "i + 1 \<le> j" by simp
          with h j show ?thesis by blast
        qed
      next
        fix j
        assume h: "\<forall>j. i \<le> j \<and> j + 1 < length a \<longrightarrow> length (a ! j) = length (a ! (j + 1))"
          and j: "i + 1 \<le> j \<and> j + 1 < length a"
        then show "length (a ! j) = length (a ! (j + 1))" by simp
      qed
      finally show ?thesis .
    qed
  qed
qed

lemma adjacentLens_all_equal:
  "adjacentLens a 0 \<longleftrightarrow> (\<forall>j<length a. length (a ! j) = length (a ! 0))"
proof
  assume "adjacentLens a 0"
  then have adj: "\<And>j. j + 1 < length a \<Longrightarrow> length (a ! j) = length (a ! (j + 1))"
    by (simp add: adjacentLens_iff)
  have "j < length a \<Longrightarrow> length (a ! j) = length (a ! 0)" for j
  proof (induction j)
    case 0
    show ?case by simp
  next
    case (Suc j)
    with adj [of j] show ?case by simp
  qed
  then show "\<forall>j<length a. length (a ! j) = length (a ! 0)" by blast
next
  assume "\<forall>j<length a. length (a ! j) = length (a ! 0)"
  then show "adjacentLens a 0" by (simp add: adjacentLens_iff)
qed

lemma validateRows_iff: "validateRows a \<longleftrightarrow> (\<forall>plane\<in>set a. adjacentLens plane 0)"
  by (induction a) auto

text \<open>
  What \<^verbatim>\<open>validateArray\<close> decides: all first-level rows have one length, and inside
  each first-level row all leaves have one length. Leaves of different first-level rows
  are not compared.
\<close>

lemma validateArray_iff:
  "validateArray a \<longleftrightarrow>
     (\<forall>i<length a. length (a ! i) = length (a ! 0)) \<and>
     (\<forall>plane\<in>set a. \<forall>j<length plane. length (plane ! j) = length (plane ! 0))"
  by (simp add: validateArray_def validateRows_iff adjacentLens_all_equal)

subsection \<open>The dense pipeline composed\<close>

lemma padCopy_shape:
  assumes "padCopy V i j p = Some p'"
    and sh: "length p = sx \<and> (\<forall>a<sx. length (p ! a) = sy \<and> (\<forall>b<sy. length (p ! a ! b) = sz))"
  shows "length p' = sx \<and> (\<forall>a<sx. length (p' ! a) = sy \<and> (\<forall>b<sy. length (p' ! a ! b) = sz))"
proof -
  from assms(1) have i: "i < length p" and j: "j < length (p ! i)"
    and p': "p' = p[i := (p ! i)[j := copy_go (p ! i ! j) (V ! i ! j)]]"
    by (auto simp: padCopy_def index_def assign_def bind_eq_Some_conv split: if_splits)
  have "length (p' ! a) = sy \<and> (\<forall>b<sy. length (p' ! a ! b) = sz)" if a: "a < sx" for a
  proof (cases "a = i")
    case False
    with sh a p' show ?thesis by simp
  next
    case True
    have "length (p' ! i ! b) = sz" if "b < sy" for b
      using sh i j that p' True a by (cases "b = j") (simp_all add: copy_go_length)
    with sh i p' True a show ?thesis by simp
  qed
  with sh p' show ?thesis by simp
qed

text \<open>
  Whatever the input, a volume that \<^verbatim>\<open>padArray\<close> returns is rectangular, its extents
  are the sizes computed from \<^verbatim>\<open>len(inputArray)\<close>, \<^verbatim>\<open>len(inputArray[0])\<close> and
  \<^verbatim>\<open>len(inputArray[0][0])\<close>, and the first two are not 0.
\<close>

lemma padArray_shape:
  fixes V :: volume
  assumes ret: "padArray V pv = Some P"
  defines "sx \<equiv> (length V + 15) div 16 * 16"
    and "sy \<equiv> (length (V ! 0) + 15) div 16 * 16"
    and "sz \<equiv> (length (V ! 0 ! 0) + 15) div 16 * 16"
  shows "length P = sx \<and> 0 < sx \<and> 0 < sy \<and> 16 dvd sx \<and> 16 dvd sy \<and> 16 dvd sz \<and>
         (\<forall>a<sx. length (P ! a) = sy \<and> (\<forall>b<sy. length (P ! a ! b) = sz))"
proof -
  let ?Sh = "\<lambda>p :: volume. length p = sx \<and> (\<forall>a<sx. length (p ! a) = sy \<and> (\<forall>b<sy. length (p ! a ! b) = sz))"
  let ?p0 = "replicate sx (replicate sy (replicate sz pv))"
  let ?bodyI = "\<lambda>i p. forUpto (length (V ! i)) (\<lambda>j p. padCopy V i j p) p"
  from ret have ne: "V \<noteq> []" "V ! 0 \<noteq> []"
    and run: "forUpto (length V) ?bodyI ?p0 = Some P"
    by (auto simp: padArray_def Let_def index_def sx_def sy_def sz_def bind_eq_Some_conv
        split: if_splits)
  have inner: "?Sh p'" if "?Sh p" "?bodyI i p = Some p'" for i p p'
  proof -
    let ?I = "\<lambda>(k :: nat) t. ?Sh t"
    have step: "?I (Suc k) u'" if "k < length (V ! i)" "?I k u" "padCopy V i k u = Some u'" for k u u'
      using padCopy_shape [OF that(3) that(2)] .
    show ?thesis
      by (rule forUpto_partial [where I = ?I and body = "\<lambda>j p. padCopy V i j p", OF that(2) that(1) step])
  qed
  have "?Sh P"
  proof -
    let ?I = "\<lambda>(k :: nat) t. ?Sh t"
    have init: "?I 0 ?p0" by simp
    have step: "?I (Suc k) u'" if "k < length V" "?I k u" "?bodyI k u = Some u'" for k u u'
      using inner [OF that(2) that(3)] .
    show ?thesis
      by (rule forUpto_partial [where I = ?I and body = ?bodyI, OF run init step])
  qed
  moreover from ne have "0 < length V" "0 < length (V ! 0)" by simp_all
  then have "0 < sx" "0 < sy"
    unfolding sx_def sy_def using round_up_16(1) [of "length V"] round_up_16(1) [of "length (V ! 0)"]
    by linarith+
  moreover have "16 dvd sx" "16 dvd sy" "16 dvd sz"
    unfolding sx_def sy_def sz_def by (rule round_up_16)+
  ultimately show ?thesis by blast
qed

text \<open>
  So the dense converter returns on every volume that \<^verbatim>\<open>padArray\<close> returns: in
  the pipeline it is only run on volumes with the three extents multiples of 16 and
  \<^verbatim>\<open>P[0]\<close>, \<^verbatim>\<open>P[0][0]\<close> existing.
\<close>

lemma convertToSections_after_padArray:
  fixes V :: volume
  assumes ret: "padArray V pv = Some P"
  shows "\<exists>sections. convertToSections P = Some sections \<and>
           length sections = (length V + 15) div 16 * ((length (V ! 0) + 15) div 16) *
             ((length (V ! 0 ! 0) + 15) div 16)"
proof -
  let ?sx = "(length V + 15) div 16 * 16"
  let ?sy = "(length (V ! 0) + 15) div 16 * 16"
  let ?sz = "(length (V ! 0 ! 0) + 15) div 16 * 16"
  note sh = padArray_shape [OF ret]
  from sh have len: "length P = ?sx" and pos: "0 < ?sx" "0 < ?sy" by blast+
  from sh have rows: "length (P ! a) = ?sy" if "a < ?sx" for a using that by blast
  from sh have leaves: "length (P ! a ! b) = ?sz" if "a < ?sx" "b < ?sy" for a b using that by blast
  from convertToSections_grid [of P ?sx ?sy ?sz, OF len rows leaves pos]
  obtain secs where "convertToSections P = Some secs"
    "length secs = ?sx div 16 * (?sy div 16) * (?sz div 16)"
    by blast
  then show ?thesis by simp
qed

end
